theory Spec2Isabelle
  imports Complex_Main "HOL-Library.AList" "HOL-Library.Product_Lexorder" "HOL-Library.Multiset"
begin

section \<open>Data model\<close>

text \<open>
  Vertex identifiers and edge weights are Python integers. A distance is either an
  integer or the sentinel \<^verbatim>\<open>float('infinity')\<close>; the order on distances is the one
  Python's comparison gives: every integer is below the sentinel.
\<close>

datatype dist = Fin int | Infinity

instantiation dist :: linorder
begin

fun less_eq_dist :: "dist \<Rightarrow> dist \<Rightarrow> bool" where
  "less_eq_dist (Fin a) (Fin b) = (a \<le> b)"
| "less_eq_dist (Fin a) Infinity = True"
| "less_eq_dist Infinity (Fin b) = False"
| "less_eq_dist Infinity Infinity = True"

fun less_dist :: "dist \<Rightarrow> dist \<Rightarrow> bool" where
  "less_dist (Fin a) (Fin b) = (a < b)"
| "less_dist (Fin a) Infinity = True"
| "less_dist Infinity (Fin b) = False"
| "less_dist Infinity Infinity = False"

instance
proof
  fix x y z :: dist
  show "(x < y) = (x \<le> y \<and> \<not> y \<le> x)" by (cases x; cases y) auto
  show "x \<le> x" by (cases x) auto
  show "x \<le> y \<Longrightarrow> y \<le> z \<Longrightarrow> x \<le> z" by (cases x; cases y; cases z) auto
  show "x \<le> y \<Longrightarrow> y \<le> x \<Longrightarrow> x = y" by (cases x; cases y) auto
  show "x \<le> y \<or> y \<le> x" by (cases x; cases y) auto
qed

end

text \<open>
  A dictionary is an association list: the keys in insertion order, looked up with
  \<^const>\<open>map_of\<close> and stored into with \<^const>\<open>AList.update\<close> (which overwrites in
  place or appends a new key, as a Python dict does). The graph maps a vertex to its
  list of (neighbor, weight) pairs.
\<close>

text \<open>
  An association list that stands for a Python dict has every key once. The weights are
  integers, as in the module's own graph.
\<close>

type_synonym graph = "(int \<times> (int \<times> int) list) list"

type_synonym distance_table = "(int \<times> dist) list"

text \<open>
  The exceptions: \<open>KeyError k\<close> for a dictionary read at a missing key \<open>k\<close>, \<open>IndexError\<close>
  for a list index out of range. \<open>BadReference\<close> is used by the rendering over a store
  only and is explained there.
\<close>

datatype error = KeyError int | IndexError | BadReference

text \<open>One recorded step: the dictionary built at lines 62-67 and 78-83.\<close>

record event =
  visited_node :: int
  visited_path :: "(int \<times> int) option"
  distances :: distance_table
  visited_nodes_set :: "int set"

text \<open>The local variables of \<^verbatim>\<open>dijkstra_with_steps\<close> that the loop mutates.\<close>

record tracer_state =
  distances_live :: distance_table
  priority_queue :: "(int \<times> int) list"
  visited_nodes :: "int set"
  animation_steps :: "event list"

section \<open>The frontier\<close>

text \<open>
  \<^verbatim>\<open>heapq\<close> keeps a list of (distance, vertex) tuples; \<^verbatim>\<open>heappop\<close> removes and
  returns the least tuple in Python's tuple order, which is the lexicographic order on
  pairs. The arrangement of the entries inside the list is not observable through push
  and pop, so the frontier is the list of its entries and pop takes out the least one.
\<close>

definition heappush :: "(int \<times> int) list \<Rightarrow> int \<times> int \<Rightarrow> (int \<times> int) list" where
  "heappush heap item = item # heap"

definition heappop :: "(int \<times> int) list \<Rightarrow> (int \<times> int) \<times> (int \<times> int) list" where
  "heappop heap = (let m = min_list heap in (m, remove1 m heap))"

section \<open>The tracer\<close>

text \<open>
  The body of the \<^verbatim>\<open>for neighbor, weight in graph[current_node]\<close> loop (lines
  71-84) for one edge. Reading \<^verbatim>\<open>distances[neighbor]\<close> for a neighbor that is no
  key of the table raises KeyError.
\<close>

definition relax_edge :: "int \<Rightarrow> int \<Rightarrow> int \<times> int \<Rightarrow> tracer_state \<Rightarrow> error + tracer_state" where
  "relax_edge current_node current_distance edge st =
     (let neighbor = fst edge; weight = snd edge in
      if neighbor \<notin> visited_nodes st then
        (let distance = current_distance + weight in
         case map_of (distances_live st) neighbor of
           None \<Rightarrow> Inl (KeyError neighbor)
         | Some old \<Rightarrow>
             if Fin distance < old then
               (let distances' = AList.update neighbor (Fin distance) (distances_live st);
                    edge_step_info = \<lparr> visited_node = current_node,
                                       visited_path = Some (current_node, neighbor),
                                       distances = distances',
                                       visited_nodes_set = visited_nodes st \<rparr>
                in Inr (st\<lparr> distances_live := distances',
                            priority_queue := heappush (priority_queue st) (distance, neighbor),
                            animation_steps := animation_steps st @ [edge_step_info] \<rparr>))
             else Inr st)
      else Inr st)"

text \<open>The \<^verbatim>\<open>for\<close> loop itself (line 70): the edges in list order, stopping at an error.\<close>

fun relax_edges :: "int \<Rightarrow> int \<Rightarrow> (int \<times> int) list \<Rightarrow> tracer_state \<Rightarrow> error + tracer_state" where
  "relax_edges current_node current_distance [] st = Inr st"
| "relax_edges current_node current_distance (edge # rest) st =
     (case relax_edge current_node current_distance edge st of
        Inl e \<Rightarrow> Inl e
      | Inr st' \<Rightarrow> relax_edges current_node current_distance rest st')"

text \<open>
  Lines 59-68: the popped vertex joins the visited set and a settlement step is appended,
  with copies of the table and of the visited set as they are after the insertion.
\<close>

definition settle :: "int \<Rightarrow> tracer_state \<Rightarrow> tracer_state" where
  "settle current_node st =
     (let visited' = insert current_node (visited_nodes st);
          step_info = \<lparr> visited_node = current_node,
                        visited_path = None,
                        distances = distances_live st,
                        visited_nodes_set = visited' \<rparr>
      in st\<lparr> visited_nodes := visited',
              animation_steps := animation_steps st @ [step_info] \<rparr>)"

text \<open>
  One pass through the body of the \<^verbatim>\<open>while priority_queue\<close> loop (lines 54-84), for
  a non-empty frontier. \<^verbatim>\<open>graph[current_node]\<close> raises KeyError for a vertex that is no
  key of the graph; it is evaluated after the settlement step has been appended.
\<close>

definition loop_body :: "graph \<Rightarrow> tracer_state \<Rightarrow> error + tracer_state" where
  "loop_body graph st =
     (let (item, heap') = heappop (priority_queue st);
          current_distance = fst item;
          current_node = snd item
      in if current_node \<in> visited_nodes st then Inr (st\<lparr> priority_queue := heap' \<rparr>)
         else
           (let st' = settle current_node (st\<lparr> priority_queue := heap' \<rparr>)
            in case map_of graph current_node of
                 None \<Rightarrow> Inl (KeyError current_node)
               | Some edges \<Rightarrow> relax_edges current_node current_distance edges st'))"

lemma settle_simps [simp]:
  "visited_nodes (settle u st) = insert u (visited_nodes st)"
  "distances_live (settle u st) = distances_live st"
  "priority_queue (settle u st) = priority_queue st"
  "animation_steps (settle u st) = animation_steps st @
     [\<lparr> visited_node = u, visited_path = None, distances = distances_live st,
        visited_nodes_set = insert u (visited_nodes st) \<rparr>]"
  by (simp_all add: settle_def Let_def)

lemma relax_edge_visited:
  "relax_edge u d e st = Inr st' \<Longrightarrow> visited_nodes st' = visited_nodes st"
  by (auto simp: relax_edge_def Let_def split: if_splits option.splits)

lemma relax_edges_visited:
  "relax_edges u d es st = Inr st' \<Longrightarrow> visited_nodes st' = visited_nodes st"
  by (induction es arbitrary: st) (auto split: sum.splits dest: relax_edge_visited)

lemma min_list_in: "xs \<noteq> [] \<Longrightarrow> min_list xs \<in> set (xs :: 'a::linorder list)"
  using Min_in [of "set xs"] by (simp add: min_list_Min)

lemma loop_body_decreases:
  assumes "priority_queue st \<noteq> []" and "loop_body graph st = Inr st'"
  shows "card (fst ` set graph - visited_nodes st') < card (fst ` set graph - visited_nodes st)
       \<or> (card (fst ` set graph - visited_nodes st') = card (fst ` set graph - visited_nodes st)
          \<and> length (priority_queue st') < length (priority_queue st))"
proof -
  let ?m = "min_list (priority_queue st)"
  have mem: "?m \<in> set (priority_queue st)" using assms(1) by (rule min_list_in)
  show ?thesis
  proof (cases "snd ?m \<in> visited_nodes st")
    case True
    then have "st' = st\<lparr> priority_queue := remove1 ?m (priority_queue st) \<rparr>"
      using assms(2) by (simp add: loop_body_def heappop_def Let_def)
    moreover have "length (remove1 ?m (priority_queue st)) < length (priority_queue st)"
      using mem assms(1) by (simp add: length_remove1)
    ultimately show ?thesis by simp
  next
    case False
    then obtain es where es: "map_of graph (snd ?m) = Some es"
      and r: "relax_edges (snd ?m) (fst ?m) es
                (settle (snd ?m) (st\<lparr> priority_queue := remove1 ?m (priority_queue st) \<rparr>)) = Inr st'"
      using assms(2) by (auto simp: loop_body_def heappop_def Let_def split: option.splits)
    have v: "visited_nodes st' = insert (snd ?m) (visited_nodes st)"
      using relax_edges_visited [OF r] by simp
    have "snd ?m \<in> fst ` set graph" using map_of_SomeD [OF es] by force
    then have "fst ` set graph - visited_nodes st' \<subset> fst ` set graph - visited_nodes st"
      using False v by auto
    then show ?thesis by (simp add: psubset_card_mono)
  qed
qed

text \<open>The \<^verbatim>\<open>while priority_queue\<close> loop (line 53).\<close>

function dijkstra_loop :: "graph \<Rightarrow> tracer_state \<Rightarrow> error + tracer_state" where
  "dijkstra_loop graph st =
     (if priority_queue st = [] then Inr st
      else case loop_body graph st of
             Inl e \<Rightarrow> Inl e
           | Inr st' \<Rightarrow> dijkstra_loop graph st')"
  by pat_completeness auto
termination
proof (relation "inv_image (less_than <*lex*> less_than)
    (\<lambda>(graph, st). (card (fst ` set graph - visited_nodes st), length (priority_queue st)))")
  show "wf (inv_image (less_than <*lex*> less_than)
    (\<lambda>(graph, st). (card (fst ` set graph - visited_nodes st), length (priority_queue st))))"
    by (intro wf_inv_image wf_lex_prod wf_less_than)
next
  fix graph st x2
  assume "priority_queue st \<noteq> []" "loop_body graph st = Inr x2"
  then show "((graph, x2), (graph, st)) \<in> inv_image (less_than <*lex*> less_than)
    (\<lambda>(graph, st). (card (fst ` set graph - visited_nodes st), length (priority_queue st)))"
    using loop_body_decreases [of st graph x2] by auto
qed

declare dijkstra_loop.simps [simp del]

text \<open>
  Lines 45-51: the table maps every key of the graph to the sentinel, then the start
  vertex to 0 (which adds the start vertex as a key when the graph does not have it).
\<close>

definition init_state :: "graph \<Rightarrow> int \<Rightarrow> tracer_state" where
  "init_state graph start_node =
     \<lparr> distances_live =
         AList.update start_node (Fin 0)
           (fold (\<lambda>node d. AList.update node Infinity d) (map fst graph) []),
       priority_queue = [(0, start_node)],
       visited_nodes = {},
       animation_steps = [] \<rparr>"

definition dijkstra_with_steps :: "graph \<Rightarrow> int \<Rightarrow> error + (distance_table \<times> event list)" where
  "dijkstra_with_steps graph start_node =
     (case dijkstra_loop graph (init_state graph start_node) of
        Inl e \<Rightarrow> Inl e
      | Inr st \<Rightarrow> Inr (distances_live st, animation_steps st))"

section \<open>The tracer over a store of objects\<close>

text \<open>
  In Python the table and the visited set are objects that the tracer mutates in place,
  and a step holds references. This second rendering of the tracer keeps the objects in
  a store, a list indexed by address: \<^verbatim>\<open>distances[neighbor] = distance\<close> and
  \<^verbatim>\<open>visited_nodes.add(current_node)\<close> overwrite the object at the address of the live
  table or set, \<^verbatim>\<open>dict(distances)\<close> and \<^verbatim>\<open>set(visited_nodes)\<close> put a new object at
  the next free address, and a step records the two addresses it was given.
\<close>

datatype obj = DictObj distance_table | SetObj "int set"

record ref_event =
  ev_node :: int
  ev_path :: "(int \<times> int) option"
  ev_distances :: nat
  ev_visited :: nat

record ref_state =
  store :: "obj list"
  distances_at :: nat
  visited_at :: nat
  frontier :: "(int \<times> int) list"
  steps_refs :: "ref_event list"

text \<open>
  Reading through an address. An address that holds no object of the expected kind has
  no counterpart in Python; the model answers \<open>BadReference\<close>, and no state of a run
  gets there.
\<close>

definition read_dict :: "obj list \<Rightarrow> nat \<Rightarrow> error + distance_table" where
  "read_dict h r =
     (if r < length h then (case h ! r of DictObj d \<Rightarrow> Inr d | SetObj V \<Rightarrow> Inl BadReference)
      else Inl BadReference)"

definition read_set :: "obj list \<Rightarrow> nat \<Rightarrow> error + int set" where
  "read_set h r =
     (if r < length h then (case h ! r of SetObj V \<Rightarrow> Inr V | DictObj d \<Rightarrow> Inl BadReference)
      else Inl BadReference)"

text \<open>
  \<^verbatim>\<open>dict(distances)\<close> followed by \<^verbatim>\<open>set(visited_nodes)\<close>: two new objects with the
  present contents of the live ones; the result is their addresses and the new store.
\<close>

definition snapshot :: "obj list \<Rightarrow> nat \<Rightarrow> nat \<Rightarrow> error + (nat \<times> nat \<times> obj list)" where
  "snapshot h d_at v_at =
     (case read_dict h d_at of
        Inl e \<Rightarrow> Inl e
      | Inr d \<Rightarrow>
          (case read_set (h @ [DictObj d]) v_at of
             Inl e \<Rightarrow> Inl e
           | Inr V \<Rightarrow> Inr (length h, Suc (length h), h @ [DictObj d, SetObj V])))"

text \<open>
  Lines 71-84 for one edge: the membership test reads the live set, the comparison reads
  the live table, the assignment overwrites the live table, and the step takes the two
  addresses that the snapshot returns.
\<close>

definition relax_edge_ref :: "int \<Rightarrow> int \<Rightarrow> int \<times> int \<Rightarrow> ref_state \<Rightarrow> error + ref_state" where
  "relax_edge_ref current_node current_distance edge rs =
     (let neighbor = fst edge; weight = snd edge in
      case read_set (store rs) (visited_at rs) of
        Inl e \<Rightarrow> Inl e
      | Inr visited \<Rightarrow>
          if neighbor \<notin> visited then
            (let distance = current_distance + weight in
             case read_dict (store rs) (distances_at rs) of
               Inl e \<Rightarrow> Inl e
             | Inr table \<Rightarrow>
                 (case map_of table neighbor of
                    None \<Rightarrow> Inl (KeyError neighbor)
                  | Some old \<Rightarrow>
                      if Fin distance < old then
                        (let h = (store rs)[distances_at rs :=
                                     DictObj (AList.update neighbor (Fin distance) table)]
                         in case snapshot h (distances_at rs) (visited_at rs) of
                              Inl e \<Rightarrow> Inl e
                            | Inr (d_copy, v_copy, h') \<Rightarrow>
                                Inr (rs\<lparr> store := h',
                                         frontier := heappush (frontier rs) (distance, neighbor),
                                         steps_refs := steps_refs rs @
                                           [\<lparr> ev_node = current_node,
                                              ev_path = Some (current_node, neighbor),
                                              ev_distances = d_copy,
                                              ev_visited = v_copy \<rparr>] \<rparr>))
                      else Inr rs))
          else Inr rs)"

text \<open>Line 70: the edges in list order, stopping at an error.\<close>

fun relax_edges_ref :: "int \<Rightarrow> int \<Rightarrow> (int \<times> int) list \<Rightarrow> ref_state \<Rightarrow> error + ref_state" where
  "relax_edges_ref current_node current_distance [] rs = Inr rs"
| "relax_edges_ref current_node current_distance (edge # rest) rs =
     (case relax_edge_ref current_node current_distance edge rs of
        Inl e \<Rightarrow> Inl e
      | Inr rs' \<Rightarrow> relax_edges_ref current_node current_distance rest rs')"

text \<open>
  Lines 59-68: \<^verbatim>\<open>visited_nodes.add(current_node)\<close> overwrites the live set, then the
  snapshot is taken and the settlement step appended.
\<close>

definition settle_ref :: "int \<Rightarrow> ref_state \<Rightarrow> error + ref_state" where
  "settle_ref current_node rs =
     (case read_set (store rs) (visited_at rs) of
        Inl e \<Rightarrow> Inl e
      | Inr visited \<Rightarrow>
          (let h = (store rs)[visited_at rs := SetObj (insert current_node visited)]
           in case snapshot h (distances_at rs) (visited_at rs) of
                Inl e \<Rightarrow> Inl e
              | Inr (d_copy, v_copy, h') \<Rightarrow>
                  Inr (rs\<lparr> store := h',
                           steps_refs := steps_refs rs @
                             [\<lparr> ev_node = current_node, ev_path = None,
                                ev_distances = d_copy, ev_visited = v_copy \<rparr>] \<rparr>)))"

text \<open>One pass through the body of the \<^verbatim>\<open>while\<close> loop (lines 54-84).\<close>

definition loop_body_ref :: "graph \<Rightarrow> ref_state \<Rightarrow> error + ref_state" where
  "loop_body_ref graph rs =
     (let (item, heap') = heappop (frontier rs);
          current_distance = fst item;
          current_node = snd item
      in case read_set (store rs) (visited_at rs) of
           Inl e \<Rightarrow> Inl e
         | Inr visited \<Rightarrow>
             if current_node \<in> visited then Inr (rs\<lparr> frontier := heap' \<rparr>)
             else
               (case settle_ref current_node (rs\<lparr> frontier := heap' \<rparr>) of
                  Inl e \<Rightarrow> Inl e
                | Inr rs' \<Rightarrow>
                    (case map_of graph current_node of
                       None \<Rightarrow> Inl (KeyError current_node)
                     | Some edges \<Rightarrow> relax_edges_ref current_node current_distance edges rs')))"

text \<open>The contents of the live set and of the live table.\<close>

definition visited_of :: "ref_state \<Rightarrow> int set" where
  "visited_of rs = (case read_set (store rs) (visited_at rs) of Inr V \<Rightarrow> V | Inl e \<Rightarrow> {})"

definition table_of :: "ref_state \<Rightarrow> distance_table" where
  "table_of rs = (case read_dict (store rs) (distances_at rs) of Inr d \<Rightarrow> d | Inl e \<Rightarrow> [])"

lemma read_dict_Inr: "read_dict h r = Inr d \<longleftrightarrow> r < length h \<and> h ! r = DictObj d"
  by (auto simp: read_dict_def split: obj.splits)

lemma read_set_Inr: "read_set h r = Inr V \<longleftrightarrow> r < length h \<and> h ! r = SetObj V"
  by (auto simp: read_set_def split: obj.splits)

lemma read_set_append_dict: "read_set (h @ [DictObj d]) r = read_set h r"
  by (auto simp: read_set_def nth_append less_Suc_eq)

lemma snapshot_Inr:
  "snapshot h d_at v_at = Inr (a1, a2, h') \<longleftrightarrow>
     (\<exists>d V. read_dict h d_at = Inr d \<and> read_set h v_at = Inr V
            \<and> a1 = length h \<and> a2 = Suc (length h) \<and> h' = h @ [DictObj d, SetObj V])"
  unfolding snapshot_def read_set_append_dict
  by (cases "read_dict h d_at"; cases "read_set h v_at") auto

lemma relax_edge_ref_cases:
  assumes "relax_edge_ref u cd (v, w) rs = Inr rs'"
  obtains (skip) V where "rs' = rs" "read_set (store rs) (visited_at rs) = Inr V"
      "v \<in> V \<or> (\<exists>table old. read_dict (store rs) (distances_at rs) = Inr table
                      \<and> map_of table v = Some old \<and> old \<le> Fin (cd + w))"
  | (update) V table old where "read_set (store rs) (visited_at rs) = Inr V" "v \<notin> V"
      "read_dict (store rs) (distances_at rs) = Inr table"
      "map_of table v = Some old" "Fin (cd + w) < old"
      "rs' = rs\<lparr> store := (store rs)[distances_at rs := DictObj (AList.update v (Fin (cd + w)) table)]
                          @ [DictObj (AList.update v (Fin (cd + w)) table), SetObj V],
                 frontier := (cd + w, v) # frontier rs,
                 steps_refs := steps_refs rs @
                   [\<lparr> ev_node = u, ev_path = Some (u, v),
                      ev_distances = length (store rs),
                      ev_visited = Suc (length (store rs)) \<rparr>] \<rparr>"
proof -
  from assms obtain V where V: "read_set (store rs) (visited_at rs) = Inr V"
    by (auto simp: relax_edge_ref_def Let_def split: sum.splits)
  show ?thesis
  proof (cases "v \<in> V")
    case True
    then have "rs' = rs" using assms V by (simp add: relax_edge_ref_def Let_def)
    then show ?thesis using V True by (intro skip [of V]) simp_all
  next
    case False
    from assms V False obtain table old where t: "read_dict (store rs) (distances_at rs) = Inr table"
      "map_of table v = Some old"
      by (auto simp: relax_edge_ref_def Let_def split: sum.splits option.splits)
    show ?thesis
    proof (cases "Fin (cd + w) < old")
      case l: False
      then have "rs' = rs" using assms V False t by (simp add: relax_edge_ref_def Let_def)
      then show ?thesis using V t l by (intro skip [of V]) (auto simp: not_less)
    next
      case l: True
      let ?h = "(store rs)[distances_at rs := DictObj (AList.update v (Fin (cd + w)) table)]"
      have ne: "visited_at rs \<noteq> distances_at rs"
        using V t(1) by (auto simp: read_set_Inr read_dict_Inr)
      have rd: "read_dict ?h (distances_at rs) = Inr (AList.update v (Fin (cd + w)) table)"
        using t(1) by (simp add: read_dict_Inr)
      have rv: "read_set ?h (visited_at rs) = Inr V"
        using V ne by (simp add: read_set_Inr)
      have "snapshot ?h (distances_at rs) (visited_at rs)
              = Inr (length (store rs), Suc (length (store rs)),
                     ?h @ [DictObj (AList.update v (Fin (cd + w)) table), SetObj V])"
        using rd rv by (simp add: snapshot_Inr)
      then show ?thesis
        using assms V False t l
        by (intro update [of V table old])
           (simp_all add: relax_edge_ref_def Let_def heappush_def)
    qed
  qed
qed

lemma settle_ref_Inr:
  "settle_ref u rs = Inr rs' \<longleftrightarrow>
     (\<exists>V d. read_set (store rs) (visited_at rs) = Inr V
            \<and> read_dict (store rs) (distances_at rs) = Inr d
            \<and> rs' = rs\<lparr> store := (store rs)[visited_at rs := SetObj (insert u V)]
                                  @ [DictObj d, SetObj (insert u V)],
                        steps_refs := steps_refs rs @
                          [\<lparr> ev_node = u, ev_path = None,
                             ev_distances = length (store rs),
                             ev_visited = Suc (length (store rs)) \<rparr>] \<rparr>)"
proof (cases "read_set (store rs) (visited_at rs)")
  case (Inl e)
  then show ?thesis by (simp add: settle_ref_def)
next
  case (Inr V)
  let ?h = "(store rs)[visited_at rs := SetObj (insert u V)]"
  have rv: "read_set ?h (visited_at rs) = Inr (insert u V)"
    using Inr by (simp add: read_set_Inr)
  have rd: "read_dict ?h (distances_at rs) = read_dict (store rs) (distances_at rs)"
    using Inr by (cases "distances_at rs = visited_at rs")
      (auto simp: read_dict_def read_set_Inr)
  show ?thesis
  proof (cases "read_dict (store rs) (distances_at rs)")
    case e: (Inl e)
    then show ?thesis using Inr rd by (simp add: settle_ref_def snapshot_def)
  next
    case d: (Inr d)
    have "snapshot ?h (distances_at rs) (visited_at rs)
            = Inr (length (store rs), Suc (length (store rs)), ?h @ [DictObj d, SetObj (insert u V)])"
      using rd rv d by (simp add: snapshot_Inr)
    then show ?thesis using Inr d by (auto simp: settle_ref_def)
  qed
qed

lemma read_set_update_other: "r \<noteq> a \<Longrightarrow> read_set (h[a := x]) r = read_set h r"
  by (simp add: read_set_def)

lemma read_dict_update_other: "r \<noteq> a \<Longrightarrow> read_dict (h[a := x]) r = read_dict h r"
  by (simp add: read_dict_def)

lemma read_set_append_old: "r < length h \<Longrightarrow> read_set (h @ h') r = read_set h r"
  by (simp add: read_set_def nth_append)

lemma read_dict_append_old: "r < length h \<Longrightarrow> read_dict (h @ h') r = read_dict h r"
  by (simp add: read_dict_def nth_append)

lemma relax_edge_ref_visited:
  assumes "relax_edge_ref u cd e rs = Inr rs'"
  shows "visited_of rs' = visited_of rs"
proof -
  obtain v w where e: "e = (v, w)" by (cases e)
  from assms [unfolded e] show ?thesis
  proof (cases rule: relax_edge_ref_cases)
    case (skip V)
    then show ?thesis by simp
  next
    case (update V table old)
    have ne: "visited_at rs \<noteq> distances_at rs" and lt: "visited_at rs < length (store rs)"
      using update(1,3) by (auto simp: read_set_Inr read_dict_Inr)
    then show ?thesis
      unfolding visited_of_def update(6)
      by (simp add: read_set_append_old read_set_update_other)
  qed
qed

lemma relax_edges_ref_visited:
  "relax_edges_ref u cd es rs = Inr rs' \<Longrightarrow> visited_of rs' = visited_of rs"
  by (induction es arbitrary: rs) (auto split: sum.splits dest: relax_edge_ref_visited)

lemma settle_ref_visited:
  assumes "settle_ref u rs = Inr rs'"
  shows "visited_of rs' = insert u (visited_of rs)" and "frontier rs' = frontier rs"
proof -
  from assms obtain V d where V: "read_set (store rs) (visited_at rs) = Inr V"
    and rs': "rs' = rs\<lparr> store := (store rs)[visited_at rs := SetObj (insert u V)]
                                  @ [DictObj d, SetObj (insert u V)],
                        steps_refs := steps_refs rs @
                          [\<lparr> ev_node = u, ev_path = None,
                             ev_distances = length (store rs),
                             ev_visited = Suc (length (store rs)) \<rparr>] \<rparr>"
    unfolding settle_ref_Inr by blast
  have "visited_at rs < length (store rs)" using V by (simp add: read_set_Inr)
  then have "read_set ((store rs)[visited_at rs := SetObj (insert u V)]
                 @ [DictObj d, SetObj (insert u V)]) (visited_at rs) = Inr (insert u V)"
    by (simp add: read_set_Inr nth_append)
  then show "visited_of rs' = insert u (visited_of rs)"
    unfolding visited_of_def rs' using V by simp
  show "frontier rs' = frontier rs" by (simp add: rs')
qed

lemma loop_body_ref_cases:
  assumes "loop_body_ref g rs = Inr rs'"
  obtains (stale) "snd (min_list (frontier rs)) \<in> visited_of rs"
      "rs' = rs\<lparr> frontier := remove1 (min_list (frontier rs)) (frontier rs) \<rparr>"
  | (settle) es rs1 where "snd (min_list (frontier rs)) \<notin> visited_of rs"
      "settle_ref (snd (min_list (frontier rs)))
         (rs\<lparr> frontier := remove1 (min_list (frontier rs)) (frontier rs) \<rparr>) = Inr rs1"
      "map_of g (snd (min_list (frontier rs))) = Some es"
      "relax_edges_ref (snd (min_list (frontier rs))) (fst (min_list (frontier rs))) es rs1 = Inr rs'"
  using assms
  by (auto simp: loop_body_ref_def heappop_def Let_def visited_of_def
      split: if_splits option.splits sum.splits)

lemma loop_body_ref_decreases:
  assumes "frontier rs \<noteq> []" and "loop_body_ref g rs = Inr rs'"
  shows "card (fst ` set g - visited_of rs') < card (fst ` set g - visited_of rs)
       \<or> (card (fst ` set g - visited_of rs') = card (fst ` set g - visited_of rs)
          \<and> length (frontier rs') < length (frontier rs))"
  using assms(2)
proof (cases rule: loop_body_ref_cases)
  case stale
  have "length (remove1 (min_list (frontier rs)) (frontier rs)) < length (frontier rs)"
    using min_list_in [OF assms(1)] assms(1) by (simp add: length_remove1)
  then show ?thesis using stale(2) by (simp add: visited_of_def)
next
  case (settle es rs1)
  let ?m = "min_list (frontier rs)"
  have "visited_of rs1 = insert (snd ?m) (visited_of rs)"
    using settle_ref_visited(1) [OF settle(2)] by (simp add: visited_of_def)
  then have v: "visited_of rs' = insert (snd ?m) (visited_of rs)"
    using relax_edges_ref_visited [OF settle(4)] by simp
  have "snd ?m \<in> fst ` set g" using map_of_SomeD [OF settle(3)] by force
  then have "fst ` set g - visited_of rs' \<subset> fst ` set g - visited_of rs"
    using settle(1) v by auto
  then show ?thesis by (simp add: psubset_card_mono)
qed

function dijkstra_loop_ref :: "graph \<Rightarrow> ref_state \<Rightarrow> error + ref_state" where
  "dijkstra_loop_ref graph rs =
     (if frontier rs = [] then Inr rs
      else case loop_body_ref graph rs of
             Inl e \<Rightarrow> Inl e
           | Inr rs' \<Rightarrow> dijkstra_loop_ref graph rs')"
  by pat_completeness auto
termination
proof (relation "inv_image (less_than <*lex*> less_than)
    (\<lambda>(graph, rs). (card (fst ` set graph - visited_of rs), length (frontier rs)))")
  show "wf (inv_image (less_than <*lex*> less_than)
    (\<lambda>(graph, rs). (card (fst ` set graph - visited_of rs), length (frontier rs))))"
    by (intro wf_inv_image wf_lex_prod wf_less_than)
next
  fix graph rs x2
  assume "frontier rs \<noteq> []" "loop_body_ref graph rs = Inr x2"
  then show "((graph, x2), (graph, rs)) \<in> inv_image (less_than <*lex*> less_than)
    (\<lambda>(graph, rs). (card (fst ` set graph - visited_of rs), length (frontier rs)))"
    using loop_body_ref_decreases [of rs graph x2] by auto
qed

declare dijkstra_loop_ref.simps [simp del]

text \<open>
  Lines 45-51 over the store: the table is the object at address 0, the visited set the
  object at address 1.
\<close>

definition init_ref :: "graph \<Rightarrow> int \<Rightarrow> ref_state" where
  "init_ref graph start_node =
     \<lparr> store = [DictObj (AList.update start_node (Fin 0)
                        (fold (\<lambda>node d. AList.update node Infinity d) (map fst graph) [])),
                SetObj {}],
       distances_at = 0,
       visited_at = 1,
       frontier = [(0, start_node)],
       steps_refs = [] \<rparr>"

text \<open>
  The run returns the address of the table and the list of steps; the final store is
  returned with them, to read them through.
\<close>

definition dijkstra_with_steps_ref ::
  "graph \<Rightarrow> int \<Rightarrow> error + (obj list \<times> nat \<times> ref_event list)" where
  "dijkstra_with_steps_ref graph start_node =
     (case dijkstra_loop_ref graph (init_ref graph start_node) of
        Inl e \<Rightarrow> Inl e
      | Inr rs \<Rightarrow> Inr (store rs, distances_at rs, steps_refs rs))"

section \<open>The player\<close>

text \<open>
  Python's \<^verbatim>\<open>str\<close> on an integer, and on a table value (\<^verbatim>\<open>str(float('infinity'))\<close> is
  \<^verbatim>\<open>inf\<close>).
\<close>

fun str_nat :: "nat \<Rightarrow> string" where
  "str_nat n = (if n < 10 then [''0123456789'' ! n]
                else str_nat (n div 10) @ [''0123456789'' ! (n mod 10)])"

declare str_nat.simps [simp del]

definition str_int :: "int \<Rightarrow> string" where
  "str_int i = (if i < 0 then ''-'' @ str_nat (nat (- i)) else str_nat (nat i))"

fun str_dist :: "dist \<Rightarrow> string" where
  "str_dist (Fin d) = str_int d"
| "str_dist Infinity = ''inf''"

text \<open>Indexing a list the way Python does: a negative index counts from the end.\<close>

definition py_index :: "'a list \<Rightarrow> int \<Rightarrow> error + 'a" where
  "py_index xs i =
     (if 0 \<le> i \<and> i < int (length xs) then Inr (xs ! nat i)
      else if i < 0 \<and> - int (length xs) \<le> i then Inr (xs ! nat (int (length xs) + i))
      else Inl IndexError)"

text \<open>
  What \<^verbatim>\<open>draw_graph\<close> puts on the axes, in the order of the calls. Positions are the
  values found in \<^verbatim>\<open>node_positions\<close>; the arithmetic on coordinates (the midpoint of an
  edge for its weight label, the offset of a distance label above its node) is the
  drawing surface's and the commands carry its operands. The calls that do not depend
  on the step (clearing the axes, aspect, title, table font) are left out.
\<close>

datatype 'p drawing =
    Plot 'p 'p string rat
  | Text_mid 'p 'p string
  | Circle 'p string string
  | Text_at 'p string
  | Text_above 'p string
  | Table "(int \<times> string) list"

text \<open>
  Lines 119-130: the edges of one vertex; \<open>path\<close> is the step's \<^verbatim>\<open>visited_path\<close>. A
  vertex without a position raises KeyError.
\<close>

fun draw_neighbors ::
  "(int \<times> 'p) list \<Rightarrow> (int \<times> int) option \<Rightarrow> int \<Rightarrow> (int \<times> int) list \<Rightarrow> error + 'p drawing list" where
  "draw_neighbors node_positions path u [] = Inr []"
| "draw_neighbors node_positions path u ((v, weight) # rest) =
     (case map_of node_positions u of
        None \<Rightarrow> Inl (KeyError u)
      | Some p1 \<Rightarrow>
          (case map_of node_positions v of
             None \<Rightarrow> Inl (KeyError v)
           | Some p2 \<Rightarrow>
               (let highlighted = (path \<noteq> None
                        \<and> (Some (u, v) = path \<or> Some (v, u) = path));
                    edge_color = (if highlighted then ''red'' else ''gray'');
                    line_width = (if highlighted then 3 else 3 / 2)
                in case draw_neighbors node_positions path u rest of
                     Inl e \<Rightarrow> Inl e
                   | Inr cmds \<Rightarrow>
                       Inr (Plot p1 p2 edge_color line_width
                            # Text_mid p1 p2 (str_int weight) # cmds))))"

text \<open>Line 118: \<^verbatim>\<open>for u, neighbors in graph.items()\<close>.\<close>

fun draw_edges ::
  "(int \<times> 'p) list \<Rightarrow> (int \<times> int) option \<Rightarrow> graph \<Rightarrow> error + 'p drawing list" where
  "draw_edges node_positions path [] = Inr []"
| "draw_edges node_positions path ((u, neighbors) # rest) =
     (case draw_neighbors node_positions path u neighbors of
        Inl e \<Rightarrow> Inl e
      | Inr cmds \<Rightarrow>
          (case draw_edges node_positions path rest of
             Inl e \<Rightarrow> Inl e
           | Inr cmds' \<Rightarrow> Inr (cmds @ cmds')))"

text \<open>
  Lines 133-149: the nodes. \<^verbatim>\<open>current_distances[node]\<close> raises KeyError for a node
  that the step's distance snapshot does not have.
\<close>

fun draw_nodes :: "(int \<times> 'p) list \<Rightarrow> event \<Rightarrow> int list \<Rightarrow> error + 'p drawing list" where
  "draw_nodes node_positions step_info [] = Inr []"
| "draw_nodes node_positions step_info (node # rest) =
     (case map_of node_positions node of
        None \<Rightarrow> Inl (KeyError node)
      | Some p \<Rightarrow>
          (let node_color = (if node \<in> visited_nodes_set step_info then ''#4caf50'' else ''white'');
               edge_color = (if node = visited_node step_info then ''red'' else ''blue'')
           in case map_of (distances step_info) node of
                None \<Rightarrow> Inl (KeyError node)
              | Some d \<Rightarrow>
                  (let label = (if d \<noteq> Infinity then [Text_above p (''d='' @ str_dist d)] else [])
                   in case draw_nodes node_positions step_info rest of
                        Inl e \<Rightarrow> Inl e
                      | Inr cmds \<Rightarrow>
                          Inr (Circle p node_color edge_color # Text_at p (str_int node)
                               # label @ cmds))))"

text \<open>Lines 153-156: the rows of the table, from the sorted items of the final table.\<close>

definition table_data :: "distance_table \<Rightarrow> (int \<times> string) list" where
  "table_data final_distances =
     map (\<lambda>(vertex, distance).
            (vertex, if distance \<noteq> Infinity then str_dist distance else ''infinity''))
         (sort final_distances)"

text \<open>
  \<^verbatim>\<open>draw_graph\<close> (lines 105-162); the module's \<^verbatim>\<open>graph\<close> and \<^verbatim>\<open>node_positions\<close> and the
  enclosing function's \<^verbatim>\<open>final_distances\<close> are parameters.
\<close>

definition draw_graph ::
  "graph \<Rightarrow> (int \<times> 'p) list \<Rightarrow> distance_table \<Rightarrow> event \<Rightarrow> bool \<Rightarrow> error + 'p drawing list" where
  "draw_graph graph node_positions final_distances step_info is_final_frame =
     (case draw_edges node_positions (visited_path step_info) graph of
        Inl e \<Rightarrow> Inl e
      | Inr edge_cmds \<Rightarrow>
          (case draw_nodes node_positions step_info (map fst graph) of
             Inl e \<Rightarrow> Inl e
           | Inr node_cmds \<Rightarrow>
               Inr (edge_cmds @ node_cmds
                    @ (if is_final_frame then [Table (table_data final_distances)] else []))))"

text \<open>
  \<^verbatim>\<open>update\<close> (lines 165-168): the frame drawn for an index, or nothing; \<open>steps\<close> is the
  enclosing function's \<^verbatim>\<open>animation_steps\<close>.
\<close>

definition update ::
  "graph \<Rightarrow> (int \<times> 'p) list \<Rightarrow> distance_table \<Rightarrow> event list \<Rightarrow> int
     \<Rightarrow> error + 'p drawing list option" where
  "update graph node_positions final_distances steps frame_index =
     (let is_final_frame = (frame_index = int (length steps) - 1)
      in if frame_index < int (length steps) then
           (case py_index steps frame_index of
              Inl e \<Rightarrow> Inl e
            | Inr step_info \<Rightarrow>
                (case draw_graph graph node_positions final_distances step_info is_final_frame of
                   Inl e \<Rightarrow> Inl e
                 | Inr frame \<Rightarrow> Inr (Some frame)))
         else Inr None)"

section \<open>Sample data\<close>

text \<open>
  The module-level graph of the source (lines 9-18) and the graph of the spec's concrete
  scenario.
\<close>

definition graph_data :: graph where
  "graph_data =
     [(0, [(1, 6), (2, 1)]),
      (1, [(0, 6), (3, 1), (5, 8)]),
      (2, [(0, 1), (4, 3)]),
      (3, [(1, 1), (5, 5)]),
      (4, [(2, 3), (5, 4), (7, 3)]),
      (5, [(1, 8), (3, 5), (4, 4), (6, 5)]),
      (6, [(5, 5), (7, 4)]),
      (7, [(4, 3), (6, 4)])]"

definition scenario_graph :: graph where
  "scenario_graph = [(0, [(1, 6), (2, 1)]), (1, [(0, 6), (3, 1)]), (2, [(0, 1), (3, 10)]), (3, [])]"

section \<open>Proof rules for the two loops\<close>

text \<open>The live table as a map.\<close>

abbreviation D :: "tracer_state \<Rightarrow> int \<Rightarrow> dist option" where
  "D st \<equiv> map_of (distances_live st)"

lemma relax_edge_cases:
  assumes "relax_edge u cd (v, w) st = Inr st'"
  obtains (skip) "st' = st" "v \<in> visited_nodes st \<or> (\<exists>old. D st v = Some old \<and> old \<le> Fin (cd + w))"
  | (update) old where "v \<notin> visited_nodes st" "D st v = Some old" "Fin (cd + w) < old"
      "st' = st\<lparr> distances_live := AList.update v (Fin (cd + w)) (distances_live st),
                 priority_queue := (cd + w, v) # priority_queue st,
                 animation_steps := animation_steps st @
                   [\<lparr> visited_node = u, visited_path = Some (u, v),
                      distances = AList.update v (Fin (cd + w)) (distances_live st),
                      visited_nodes_set = visited_nodes st \<rparr>] \<rparr>"
  using assms
  by (auto simp: relax_edge_def Let_def heappush_def not_less split: if_splits option.splits)

lemma loop_body_cases:
  assumes "loop_body g st = Inr st'"
  obtains (stale) "snd (min_list (priority_queue st)) \<in> visited_nodes st"
      "st' = st\<lparr> priority_queue := remove1 (min_list (priority_queue st)) (priority_queue st) \<rparr>"
  | (settle) es where "snd (min_list (priority_queue st)) \<notin> visited_nodes st"
      "map_of g (snd (min_list (priority_queue st))) = Some es"
      "relax_edges (snd (min_list (priority_queue st))) (fst (min_list (priority_queue st))) es
         (settle (snd (min_list (priority_queue st)))
            (st\<lparr> priority_queue := remove1 (min_list (priority_queue st)) (priority_queue st) \<rparr>))
       = Inr st'"
  using assms
  by (auto simp: loop_body_def heappop_def Let_def split: if_splits option.splits)

lemma relax_edges_rule:
  assumes "relax_edges u cd es st = Inr st'" and "P st"
    and "\<And>e a b. e \<in> set es \<Longrightarrow> P a \<Longrightarrow> relax_edge u cd e a = Inr b \<Longrightarrow> P b"
  shows "P st'"
  using assms
proof (induction es arbitrary: st)
  case Nil
  then show ?case by simp
next
  case (Cons e es)
  then obtain a where a: "relax_edge u cd e st = Inr a" and r: "relax_edges u cd es a = Inr st'"
    by (auto split: sum.splits)
  have "P a" using Cons.prems(3) [OF _ Cons.prems(2) a] by simp
  show ?case
  proof (rule Cons.IH [OF r \<open>P a\<close>])
    fix e' x y
    assume "e' \<in> set es" "P x" "relax_edge u cd e' x = Inr y"
    then show "P y" using Cons.prems(3) [of e' x y] by simp
  qed
qed

lemma relax_edges_rule_done:
  assumes "relax_edges u cd es st = Inr st'" and "P [] st"
    and "\<And>ds e a b. P ds a \<Longrightarrow> relax_edge u cd e a = Inr b \<Longrightarrow> P (ds @ [e]) b"
  shows "P es st'"
proof -
  have "P ds st \<Longrightarrow> relax_edges u cd es st = Inr st' \<Longrightarrow> P (ds @ es) st'" for ds
  proof (induction es arbitrary: st ds)
    case Nil
    then show ?case by simp
  next
    case (Cons e es)
    then obtain a where a: "relax_edge u cd e st = Inr a" and r: "relax_edges u cd es a = Inr st'"
      by (auto split: sum.splits)
    have "P (ds @ [e]) a" using assms(3) [OF Cons.prems(1) a] .
    from Cons.IH [OF this r] show ?case by simp
  qed
  from this [of "[]"] assms show ?thesis by simp
qed

lemma relax_edges_total:
  assumes "P st"
    and "\<And>e a b. e \<in> set es \<Longrightarrow> P a \<Longrightarrow> relax_edge u cd e a = Inr b \<Longrightarrow> P b"
    and "\<And>e a. e \<in> set es \<Longrightarrow> P a \<Longrightarrow> \<exists>b. relax_edge u cd e a = Inr b"
  shows "\<exists>st'. relax_edges u cd es st = Inr st'"
  using assms
proof (induction es arbitrary: st)
  case Nil
  then show ?case by simp
next
  case (Cons e es)
  obtain a where a: "relax_edge u cd e st = Inr a"
    using Cons.prems(3) [of e st] Cons.prems(1) by auto
  have "P a" using Cons.prems(2) [OF _ Cons.prems(1) a] by simp
  have "\<exists>st'. relax_edges u cd es a = Inr st'"
  proof (rule Cons.IH [OF \<open>P a\<close>])
    fix e' x y
    assume "e' \<in> set es" "P x" "relax_edge u cd e' x = Inr y"
    then show "P y" using Cons.prems(2) [of e' x y] by simp
  next
    fix e' x
    assume "e' \<in> set es" "P x"
    then show "\<exists>b. relax_edge u cd e' x = Inr b" using Cons.prems(3) [of e' x] by simp
  qed
  then show ?case using a by simp
qed

lemma dijkstra_loop_rule:
  assumes "dijkstra_loop g st = Inr st'" and "P st"
    and "\<And>a b. P a \<Longrightarrow> priority_queue a \<noteq> [] \<Longrightarrow> loop_body g a = Inr b \<Longrightarrow> P b"
  shows "P st' \<and> priority_queue st' = []"
  using assms
proof (induction g st rule: dijkstra_loop.induct)
  case (1 g st)
  show ?case
  proof (cases "priority_queue st = []")
    case True
    then show ?thesis using "1.prems"(1,2) by (simp add: dijkstra_loop.simps)
  next
    case False
    then obtain a where a: "loop_body g st = Inr a" and r: "dijkstra_loop g a = Inr st'"
      using "1.prems"(1) by (subst (asm) dijkstra_loop.simps) (auto split: sum.splits)
    have "P a" using "1.prems"(3) [OF "1.prems"(2) False a] .
    from "1.IH" [OF False a r this] "1.prems"(3) show ?thesis by simp
  qed
qed

lemma dijkstra_loop_total:
  assumes "P st"
    and "\<And>a b. P a \<Longrightarrow> priority_queue a \<noteq> [] \<Longrightarrow> loop_body g a = Inr b \<Longrightarrow> P b"
    and "\<And>a. P a \<Longrightarrow> priority_queue a \<noteq> [] \<Longrightarrow> \<exists>b. loop_body g a = Inr b"
  shows "\<exists>st'. dijkstra_loop g st = Inr st'"
  using assms
proof (induction g st rule: dijkstra_loop.induct)
  case (1 g st)
  show ?case
  proof (cases "priority_queue st = []")
    case True
    then show ?thesis by (simp add: dijkstra_loop.simps)
  next
    case False
    obtain a where a: "loop_body g st = Inr a"
      using "1.prems"(3) [OF "1.prems"(1) False] by auto
    have "P a" using "1.prems"(2) [OF "1.prems"(1) False a] .
    from "1.IH" [OF False a this] "1.prems"(2,3) obtain st' where "dijkstra_loop g a = Inr st'"
      by auto
    then show ?thesis using False a by (subst dijkstra_loop.simps) simp
  qed
qed

section \<open>Unknown start vertex\<close>

text \<open>
  Claim C3. For every graph and every start vertex that is no key of the graph, the run
  fails: the start vertex is popped and \<^verbatim>\<open>graph[current_node]\<close> raises KeyError for it
  (the unknown-start-vertex error of the spec). The result is the error alone, so no
  event sequence reaches the caller.
\<close>

theorem unknown_start_fails:
  assumes "start_node \<notin> fst ` set g"
  shows "dijkstra_with_steps g start_node = Inl (KeyError start_node)"
proof -
  have "map_of g start_node = None"
    using assms by (simp add: map_of_eq_None_iff)
  then have "loop_body g (init_state g start_node) = Inl (KeyError start_node)"
    by (simp add: loop_body_def init_state_def heappop_def)
  then have "dijkstra_loop g (init_state g start_node) = Inl (KeyError start_node)"
    by (subst dijkstra_loop.simps) (simp add: init_state_def)
  then show ?thesis by (simp add: dijkstra_with_steps_def)
qed

theorem unknown_start_fails_witness:
  "(9::int) \<notin> fst ` set scenario_graph
   \<and> dijkstra_with_steps scenario_graph 9 = Inl (KeyError 9)"
  using unknown_start_fails [of 9 scenario_graph] by (simp add: scenario_graph_def)

section \<open>Stale frontier entries\<close>

text \<open>
  Claim C4. Whenever the least entry popped from a non-empty frontier names a vertex
  that is already in the visited set, the pass through the loop body only drops that
  entry: no step is appended, the distance table and the visited set are unchanged, and
  the loop goes on from the state with the shorter frontier. This holds in every state,
  so in every state of every run.
\<close>

theorem stale_entry_discarded:
  assumes "priority_queue st \<noteq> []"
    and "heappop (priority_queue st) = ((d, v), heap')"
    and "v \<in> visited_nodes st"
  shows "\<exists>st'. loop_body g st = Inr st'
           \<and> animation_steps st' = animation_steps st
           \<and> distances_live st' = distances_live st
           \<and> visited_nodes st' = visited_nodes st
           \<and> priority_queue st' = heap'
           \<and> dijkstra_loop g st = dijkstra_loop g st'"
proof -
  have b: "loop_body g st = Inr (st\<lparr> priority_queue := heap' \<rparr>)"
    using assms(2,3) by (simp add: loop_body_def)
  then have "dijkstra_loop g st = dijkstra_loop g (st\<lparr> priority_queue := heap' \<rparr>)"
    using assms(1) by (subst dijkstra_loop.simps) simp
  with b show ?thesis by simp
qed

theorem stale_entry_discarded_witness:
  "\<exists>st'. loop_body scenario_graph
            \<lparr> distances_live = [(0, Fin 0), (1, Fin 6), (2, Fin 1), (3, Fin 7)],
              priority_queue = [(11, 3)], visited_nodes = {0, 1, 2, 3},
              animation_steps = [] \<rparr> = Inr st'
         \<and> animation_steps st' = []
         \<and> distances_live st' = [(0, Fin 0), (1, Fin 6), (2, Fin 1), (3, Fin 7)]
         \<and> visited_nodes st' = {0, 1, 2, 3}
         \<and> priority_queue st' = []"
  using stale_entry_discarded [of
      "\<lparr> distances_live = [(0, Fin 0), (1, Fin 6), (2, Fin 1), (3, Fin 7)],
         priority_queue = [(11, 3)], visited_nodes = {0, 1, 2, 3},
         animation_steps = [] \<rparr>" 11 3 "[]" scenario_graph]
  by (auto simp: heappop_def)

section \<open>Valid inputs and termination without error\<close>

text \<open>
  A graph in the sense of the spec has its edges between its own vertices: every
  neighbor named in an adjacency list is a key of the graph. A valid input is such a
  graph together with a start vertex that is one of its keys.
\<close>

definition closed_graph :: "graph \<Rightarrow> bool" where
  "closed_graph g = (\<forall>entry \<in> set g. \<forall>edge \<in> set (snd entry). fst edge \<in> fst ` set g)"

definition valid_input :: "graph \<Rightarrow> int \<Rightarrow> bool" where
  "valid_input g start_node = (start_node \<in> fst ` set g \<and> closed_graph g)"

definition has_negative_weight :: "graph \<Rightarrow> bool" where
  "has_negative_weight g = (\<exists>entry \<in> set g. \<exists>edge \<in> set (snd entry). snd edge < 0)"

lemma closed_graph_edge:
  "closed_graph g \<Longrightarrow> map_of g u = Some es \<Longrightarrow> (v, w) \<in> set es \<Longrightarrow> v \<in> fst ` set g"
  by (force simp: closed_graph_def dest: map_of_SomeD)

lemma map_of_fold_update:
  "map_of (fold (\<lambda>node d. AList.update node x d) ks al) k
     = (if k \<in> set ks then Some x else map_of al k)"
  by (induction ks arbitrary: al) (auto simp: update_conv')

lemma D_init:
  "D (init_state g s) = (\<lambda>k. if k = s then Some (Fin 0)
                              else if k \<in> fst ` set g then Some Infinity else None)"
  by (auto simp: init_state_def update_conv' map_of_fold_update fun_eq_iff)

subsection \<open>The keys of the table\<close>

definition inv_dom :: "graph \<Rightarrow> tracer_state \<Rightarrow> bool" where
  "inv_dom g st = (dom (D st) = fst ` set g
                   \<and> (\<forall>item \<in> set (priority_queue st). snd item \<in> fst ` set g))"

lemma in_set_remove1D: "x \<in> set (remove1 m xs) \<Longrightarrow> x \<in> set xs"
  using set_remove1_subset [of m xs] by auto

lemma in_set_remove1I: "x \<in> set xs \<Longrightarrow> x \<noteq> m \<Longrightarrow> x \<in> set (remove1 m xs)"
  by (induction xs) auto

lemma inv_dom_init: "s \<in> fst ` set g \<Longrightarrow> inv_dom g (init_state g s)"
  unfolding inv_dom_def D_init by (auto simp: init_state_def dom_def)

lemma inv_dom_relax_edge:
  assumes "inv_dom g a" and "relax_edge u cd e a = Inr b"
  shows "inv_dom g b"
proof -
  obtain v w where e: "e = (v, w)" by (cases e)
  from assms(2) [unfolded e] show ?thesis
  proof (cases rule: relax_edge_cases)
    case skip
    then show ?thesis using assms(1) by simp
  next
    case (update old)
    have "v \<in> dom (D a)" using update(2) by auto
    then show ?thesis
      using assms(1) unfolding inv_dom_def update(4) by (auto simp: update_conv')
  qed
qed

lemma inv_dom_relax_edge_total:
  assumes "inv_dom g a" and "fst e \<in> fst ` set g"
  shows "\<exists>b. relax_edge u cd e a = Inr b"
proof -
  have "fst e \<in> dom (D a)" using assms by (simp add: inv_dom_def)
  then obtain old where "D a (fst e) = Some old" by auto
  then show ?thesis by (simp add: relax_edge_def Let_def)
qed

lemma inv_dom_relax_edges:
  assumes "inv_dom g a" and "relax_edges u cd es a = Inr b"
  shows "inv_dom g b"
  using assms(2,1) by (rule relax_edges_rule) (rule inv_dom_relax_edge)

lemma inv_dom_pop:
  "inv_dom g a \<Longrightarrow> inv_dom g (a\<lparr> priority_queue := remove1 m (priority_queue a) \<rparr>)"
  by (auto simp: inv_dom_def dest: in_set_remove1D)

lemma inv_dom_settle: "inv_dom g a \<Longrightarrow> inv_dom g (settle u a)"
  by (simp add: inv_dom_def)

lemma inv_dom_loop_body:
  assumes "inv_dom g a" and "loop_body g a = Inr b"
  shows "inv_dom g b"
  using assms(2)
proof (cases rule: loop_body_cases)
  case stale
  then show ?thesis using inv_dom_pop [OF assms(1)] by simp
next
  case (settle es)
  show ?thesis
    by (rule inv_dom_relax_edges [OF _ settle(3)]) (intro inv_dom_settle inv_dom_pop assms(1))
qed

lemma loop_body_total:
  assumes "closed_graph g" and "inv_dom g a" and "priority_queue a \<noteq> []"
  shows "\<exists>b. loop_body g a = Inr b"
proof -
  let ?m = "min_list (priority_queue a)"
  let ?a' = "settle (snd ?m) (a\<lparr> priority_queue := remove1 ?m (priority_queue a) \<rparr>)"
  have "?m \<in> set (priority_queue a)" using assms(3) by (rule min_list_in)
  then have "snd ?m \<in> fst ` set g" using assms(2) by (auto simp: inv_dom_def)
  then obtain es where es: "map_of g (snd ?m) = Some es"
    by (metis domD dom_map_of_conv_image_fst)
  have a': "inv_dom g ?a'"
    by (intro inv_dom_settle inv_dom_pop assms(2))
  have "\<exists>b. relax_edges (snd ?m) (fst ?m) es ?a' = Inr b"
  proof (rule relax_edges_total [where P = "inv_dom g"])
    show "inv_dom g ?a'" by (rule a')
  next
    fix e x y
    assume "inv_dom g x" "relax_edge (snd ?m) (fst ?m) e x = Inr y"
    then show "inv_dom g y" by (rule inv_dom_relax_edge)
  next
    fix e x
    assume "e \<in> set es" "inv_dom g x"
    moreover have "fst e \<in> fst ` set g"
      using closed_graph_edge [OF assms(1) es, of "fst e" "snd e"] \<open>e \<in> set es\<close> by simp
    ultimately show "\<exists>b. relax_edge (snd ?m) (fst ?m) e x = Inr b"
      by (simp add: inv_dom_relax_edge_total)
  qed
  then show ?thesis
    using es by (auto simp: loop_body_def heappop_def Let_def)
qed

lemma valid_input_returns:
  assumes "valid_input g s"
  shows "\<exists>st. dijkstra_loop g (init_state g s) = Inr st"
proof (rule dijkstra_loop_total [where P = "inv_dom g"])
  show "inv_dom g (init_state g s)"
    using assms by (simp add: valid_input_def inv_dom_init)
next
  fix a b
  assume "inv_dom g a" "loop_body g a = Inr b"
  then show "inv_dom g b" by (rule inv_dom_loop_body)
next
  fix a
  assume "inv_dom g a" "priority_queue a \<noteq> []"
  then show "\<exists>b. loop_body g a = Inr b"
    using assms by (simp add: valid_input_def loop_body_total)
qed

lemma dijkstra_with_steps_Inr:
  "dijkstra_with_steps g s = Inr (fd, steps) \<longleftrightarrow>
     (\<exists>st. dijkstra_loop g (init_state g s) = Inr st \<and> fd = distances_live st \<and> steps = animation_steps st)"
  by (auto simp: dijkstra_with_steps_def split: sum.splits)

section \<open>Negative weights\<close>

text \<open>
  Claim C2 says that a graph with a negative edge weight is refused with an error
  before any result is produced. The code never inspects the sign of a weight: on the
  graph below, whose edge from 2 to 1 weighs -2, it returns a table and three steps.
\<close>

theorem negative_weight_counterexample:
  "has_negative_weight [(0, [(1, 2), (2, 3)]), (1, []), (2, [(1, - 2)])]
   \<and> dijkstra_with_steps [(0, [(1, 2), (2, 3)]), (1, []), (2, [(1, - 2)])] 0
       = Inr ([(0, Fin 0), (1, Fin 2), (2, Fin 3)],
              [\<lparr> visited_node = 0, visited_path = None,
                  distances = [(0, Fin 0), (1, Infinity), (2, Infinity)],
                  visited_nodes_set = {0} \<rparr>,
               \<lparr> visited_node = 0, visited_path = Some (0, 1),
                  distances = [(0, Fin 0), (1, Fin 2), (2, Infinity)],
                  visited_nodes_set = {0} \<rparr>,
               \<lparr> visited_node = 0, visited_path = Some (0, 2),
                  distances = [(0, Fin 0), (1, Fin 2), (2, Fin 3)],
                  visited_nodes_set = {0} \<rparr>,
               \<lparr> visited_node = 1, visited_path = None,
                  distances = [(0, Fin 0), (1, Fin 2), (2, Fin 3)],
                  visited_nodes_set = {0, 1} \<rparr>,
               \<lparr> visited_node = 2, visited_path = None,
                  distances = [(0, Fin 0), (1, Fin 2), (2, Fin 3)],
                  visited_nodes_set = {0, 1, 2} \<rparr>])"
  by code_simp

text \<open>
  Claim C2, amended. For every graph with a negative edge weight whose start vertex and
  neighbors are all keys of the graph, the tracer runs the algorithm to its end and
  returns a distance table and a list of steps: the weights are not checked.
\<close>

theorem negative_weight_not_checked:
  assumes "has_negative_weight g" and "valid_input g s"
  shows "\<exists>fd steps. dijkstra_with_steps g s = Inr (fd, steps)"
  using valid_input_returns [OF assms(2)] by (auto simp: dijkstra_with_steps_def)

theorem negative_weight_not_checked_witness:
  "has_negative_weight [(0, [(1, 2), (2, 3)]), (1, []), (2, [(1, - 2)])]
   \<and> valid_input [(0, [(1, 2), (2, 3)]), (1, []), (2, [(1, - 2)])] 0
   \<and> (\<exists>fd steps. dijkstra_with_steps [(0, [(1, 2), (2, 3)]), (1, []), (2, [(1, - 2)])] 0
                     = Inr (fd, steps))"
proof -
  have n: "has_negative_weight [(0, [(1, 2), (2, 3)]), (1, []), (2, [(1, - 2)])]"
    by (simp add: has_negative_weight_def)
  have v: "valid_input [(0, [(1, 2), (2, 3)]), (1, []), (2, [(1, - 2)])] 0"
    by (simp add: valid_input_def closed_graph_def)
  from n v negative_weight_not_checked [OF n v] show ?thesis by simp
qed

section \<open>Finite entries: frontier, visited set and table\<close>

text \<open>
  Three facts that hold at the head of the loop and inside the edge loop: every frontier
  entry names a vertex whose table value is an integer no greater than the entry's key;
  every visited vertex has an integer in the table; every unvisited vertex with an
  integer in the table has that very entry in the frontier.
\<close>

definition inv_fin :: "tracer_state \<Rightarrow> bool" where
  "inv_fin st =
     ((\<forall>item \<in> set (priority_queue st). \<exists>d. D st (snd item) = Some (Fin d) \<and> d \<le> fst item)
      \<and> (\<forall>v \<in> visited_nodes st. \<exists>d. D st v = Some (Fin d))
      \<and> (\<forall>v d. v \<notin> visited_nodes st \<longrightarrow> D st v = Some (Fin d)
             \<longrightarrow> (d, v) \<in> set (priority_queue st)))"

lemma inv_finD1:
  "inv_fin st \<Longrightarrow> (k, v) \<in> set (priority_queue st) \<Longrightarrow> \<exists>d. D st v = Some (Fin d) \<and> d \<le> k"
  by (force simp: inv_fin_def)

lemma inv_finD2: "inv_fin st \<Longrightarrow> v \<in> visited_nodes st \<Longrightarrow> \<exists>d. D st v = Some (Fin d)"
  by (simp add: inv_fin_def)

lemma inv_finD3:
  "inv_fin st \<Longrightarrow> v \<notin> visited_nodes st \<Longrightarrow> D st v = Some (Fin d)
     \<Longrightarrow> (d, v) \<in> set (priority_queue st)"
  by (simp add: inv_fin_def)

lemma inv_fin_init: "inv_fin (init_state g s)"
  unfolding inv_fin_def D_init by (simp add: init_state_def)

lemma less_Fin_cases: "Fin a < old \<Longrightarrow> old = Infinity \<or> (\<exists>b. old = Fin b \<and> a < b)"
  by (cases old) auto

lemma inv_fin_relax_edge:
  assumes "inv_fin a" and "relax_edge u cd e a = Inr b"
  shows "inv_fin b"
proof -
  obtain v w where e: "e = (v, w)" by (cases e)
  from assms(2) [unfolded e] show ?thesis
  proof (cases rule: relax_edge_cases)
    case skip
    then show ?thesis using assms(1) by simp
  next
    case (update old)
    have Db: "D b = (D a)(v \<mapsto> Fin (cd + w))"
      by (simp add: update(4) update_conv')
    have pq: "priority_queue b = (cd + w, v) # priority_queue a"
      and vis: "visited_nodes b = visited_nodes a"
      by (simp_all add: update(4))
    have 1: "\<exists>d. D b (snd item) = Some (Fin d) \<and> d \<le> fst item"
      if "item \<in> set (priority_queue b)" for item
    proof (cases "snd item = v")
      case True
      show ?thesis
      proof (cases "item = (cd + w, v)")
        case True
        then show ?thesis by (simp add: Db)
      next
        case False
        then have "(fst item, v) \<in> set (priority_queue a)"
          using that \<open>snd item = v\<close> pq by (cases item) auto
        from inv_finD1 [OF assms(1) this] obtain d where "D a v = Some (Fin d)" "d \<le> fst item"
          by auto
        then have "cd + w < d" using update(2,3) by simp
        then show ?thesis using \<open>d \<le> fst item\<close> \<open>snd item = v\<close> by (simp add: Db)
      qed
    next
      case False
      then have "item \<in> set (priority_queue a)" using that pq by auto
      then have "(fst item, snd item) \<in> set (priority_queue a)" by simp
      from inv_finD1 [OF assms(1) this] show ?thesis using False by (simp add: Db)
    qed
    have 2: "\<exists>d. D b x = Some (Fin d)" if "x \<in> visited_nodes b" for x
      using that inv_finD2 [OF assms(1), of x] update(1) by (auto simp: Db vis)
    have 3: "(d, x) \<in> set (priority_queue b)"
      if "x \<notin> visited_nodes b" "D b x = Some (Fin d)" for x d
      using that inv_finD3 [OF assms(1), of x d] by (auto simp: Db vis pq split: if_splits)
    show ?thesis unfolding inv_fin_def using 1 2 3 by blast
  qed
qed

lemma inv_fin_relax_edges:
  assumes "inv_fin a" and "relax_edges u cd es a = Inr b"
  shows "inv_fin b"
  using assms(2,1) by (rule relax_edges_rule) (rule inv_fin_relax_edge)

lemma inv_fin_pop_stale:
  assumes "inv_fin a" and "snd m \<in> visited_nodes a"
  shows "inv_fin (a\<lparr> priority_queue := remove1 m (priority_queue a) \<rparr>)"
proof -
  have "(d, v) \<in> set (remove1 m (priority_queue a))"
    if "v \<notin> visited_nodes a" "D a v = Some (Fin d)" for v d
  proof -
    have "(d, v) \<noteq> m" using that(1) assms(2) by auto
    with inv_finD3 [OF assms(1) that] show ?thesis by (simp add: in_set_remove1I)
  qed
  then show ?thesis
    using assms(1) unfolding inv_fin_def
    by (auto dest!: in_set_remove1D)
qed

lemma inv_fin_pop_settle:
  assumes "inv_fin a" and "m \<in> set (priority_queue a)"
  shows "inv_fin (settle (snd m) (a\<lparr> priority_queue := remove1 m (priority_queue a) \<rparr>))"
proof -
  have "(d, v) \<in> set (remove1 m (priority_queue a))"
    if "v \<notin> visited_nodes a" "v \<noteq> snd m" "D a v = Some (Fin d)" for v d
  proof -
    have "(d, v) \<noteq> m" using that(2) by auto
    with inv_finD3 [OF assms(1) that(1,3)] show ?thesis by (simp add: in_set_remove1I)
  qed
  moreover have "\<exists>d. D a (snd m) = Some (Fin d)"
    using inv_finD1 [OF assms(1), of "fst m" "snd m"] assms(2) by auto
  ultimately show ?thesis
    using assms(1) unfolding inv_fin_def
    by (auto dest!: in_set_remove1D)
qed

lemma inv_fin_loop_body:
  assumes "inv_fin a" and "priority_queue a \<noteq> []" and "loop_body g a = Inr b"
  shows "inv_fin b"
  using assms(3)
proof (cases rule: loop_body_cases)
  case stale
  then show ?thesis using inv_fin_pop_stale [OF assms(1)] by simp
next
  case (settle es)
  show ?thesis
    by (rule inv_fin_relax_edges [OF _ settle(3)])
       (rule inv_fin_pop_settle [OF assms(1) min_list_in [OF assms(2)]])
qed

section \<open>Visited vertices have finite distances in every snapshot\<close>

definition inv_snap_fin :: "tracer_state \<Rightarrow> bool" where
  "inv_snap_fin st =
     (inv_fin st \<and> (\<forall>e \<in> set (animation_steps st). \<forall>v \<in> visited_nodes_set e.
                       \<exists>d. map_of (distances e) v = Some (Fin d)))"

lemma inv_snap_fin_init: "inv_snap_fin (init_state g s)"
  by (simp add: inv_snap_fin_def inv_fin_init) (simp add: init_state_def)

lemma inv_snap_fin_relax_edge:
  assumes "inv_snap_fin a" and "relax_edge u cd e a = Inr b"
  shows "inv_snap_fin b"
proof -
  have fb: "inv_fin b" using assms by (auto simp: inv_snap_fin_def intro: inv_fin_relax_edge)
  obtain v w where e: "e = (v, w)" by (cases e)
  from assms(2) [unfolded e] show ?thesis
  proof (cases rule: relax_edge_cases)
    case skip
    then show ?thesis using assms(1) by simp
  next
    case (update old)
    have vis: "visited_nodes b = visited_nodes a" by (simp add: update(4))
    have steps: "animation_steps b = animation_steps a @
        [\<lparr> visited_node = u, visited_path = Some (u, v), distances = distances_live b,
           visited_nodes_set = visited_nodes b \<rparr>]"
      by (simp add: update(4))
    have "\<exists>d. D b x = Some (Fin d)" if "x \<in> visited_nodes b" for x
      using inv_finD2 [OF fb that] .
    then show ?thesis
      using assms(1) fb unfolding inv_snap_fin_def steps by auto
  qed
qed

lemma inv_snap_fin_loop_body:
  assumes "inv_snap_fin a" and "priority_queue a \<noteq> []" and "loop_body g a = Inr b"
  shows "inv_snap_fin b"
  using assms(3)
proof (cases rule: loop_body_cases)
  case stale
  then show ?thesis
    using assms(1) inv_fin_pop_stale [of a "min_list (priority_queue a)"]
    by (simp add: inv_snap_fin_def)
next
  case (settle es)
  let ?m = "min_list (priority_queue a)"
  let ?a' = "settle (snd ?m) (a\<lparr> priority_queue := remove1 ?m (priority_queue a) \<rparr>)"
  have f: "inv_fin ?a'"
    using assms(1) inv_fin_pop_settle [OF _ min_list_in [OF assms(2)]]
    by (simp add: inv_snap_fin_def)
  have "\<exists>d. D a x = Some (Fin d)" if "x \<in> insert (snd ?m) (visited_nodes a)" for x
    using inv_finD2 [OF f, of x] that by simp
  then have "inv_snap_fin ?a'"
    using assms(1) f unfolding inv_snap_fin_def by auto
  with settle(3) show ?thesis
    by (rule relax_edges_rule) (rule inv_snap_fin_relax_edge)
qed

text \<open>
  Claim C10. On every valid input the run returns, and in every recorded step each
  vertex of the step's visited-set snapshot is mapped to an integer (not to the
  sentinel) by the same step's distance snapshot.
\<close>

theorem visited_snapshot_finite:
  assumes "valid_input g s"
  shows "\<exists>fd steps. dijkstra_with_steps g s = Inr (fd, steps)
           \<and> (\<forall>e \<in> set steps. \<forall>v \<in> visited_nodes_set e.
                 \<exists>d. map_of (distances e) v = Some (Fin d))"
proof -
  obtain st where st: "dijkstra_loop g (init_state g s) = Inr st"
    using valid_input_returns [OF assms] by auto
  have "inv_snap_fin st \<and> priority_queue st = []"
    using st inv_snap_fin_init
    by (rule dijkstra_loop_rule) (rule inv_snap_fin_loop_body)
  then show ?thesis
    using st by (simp add: dijkstra_with_steps_def inv_snap_fin_def)
qed

theorem visited_snapshot_finite_witness:
  "valid_input graph_data 0
   \<and> (\<exists>fd steps. dijkstra_with_steps graph_data 0 = Inr (fd, steps)
         \<and> (\<forall>e \<in> set steps. \<forall>v \<in> visited_nodes_set e.
               \<exists>d. map_of (distances e) v = Some (Fin d)))"
proof -
  have v: "valid_input graph_data 0"
    by (simp add: valid_input_def closed_graph_def graph_data_def)
  from v visited_snapshot_finite [OF v] show ?thesis by simp
qed

section \<open>Walks, reachability and shortest distances\<close>

text \<open>
  \<open>path_weight g s v d\<close>: some walk along edges of \<open>g\<close> leads from \<open>s\<close> to \<open>v\<close> and its
  weights add up to \<open>d\<close>. A vertex is reachable when it has such a walk, and its
  shortest distance is the least weight of one.
\<close>

inductive path_weight :: "graph \<Rightarrow> int \<Rightarrow> int \<Rightarrow> int \<Rightarrow> bool" for g :: graph and s :: int where
  start: "path_weight g s s 0"
| edge: "path_weight g s u d \<Longrightarrow> map_of g u = Some es \<Longrightarrow> (v, w) \<in> set es
           \<Longrightarrow> path_weight g s v (d + w)"

definition reachable :: "graph \<Rightarrow> int \<Rightarrow> int \<Rightarrow> bool" where
  "reachable g s v = (\<exists>d. path_weight g s v d)"

definition shortest_distance :: "graph \<Rightarrow> int \<Rightarrow> int \<Rightarrow> int \<Rightarrow> bool" where
  "shortest_distance g s v d = (path_weight g s v d \<and> (\<forall>d'. path_weight g s v d' \<longrightarrow> d \<le> d'))"

definition nonneg_weights :: "graph \<Rightarrow> bool" where
  "nonneg_weights g = (\<forall>entry \<in> set g. \<forall>edge \<in> set (snd entry). 0 \<le> snd edge)"

lemma nonneg_weights_edge:
  "nonneg_weights g \<Longrightarrow> map_of g u = Some es \<Longrightarrow> (v, w) \<in> set es \<Longrightarrow> 0 \<le> w"
  by (force simp: nonneg_weights_def dest: map_of_SomeD)

lemma path_weight_nonneg:
  "path_weight g s v d \<Longrightarrow> nonneg_weights g \<Longrightarrow> 0 \<le> d"
  by (induction rule: path_weight.induct) (auto dest: nonneg_weights_edge)

subsection \<open>Table values and frontier keys are weights of walks\<close>

definition inv_path :: "graph \<Rightarrow> int \<Rightarrow> tracer_state \<Rightarrow> bool" where
  "inv_path g s st =
     ((\<forall>item \<in> set (priority_queue st). path_weight g s (snd item) (fst item))
      \<and> (\<forall>v d. D st v = Some (Fin d) \<longrightarrow> path_weight g s v d))"

lemma inv_pathD1:
  "inv_path g s st \<Longrightarrow> item \<in> set (priority_queue st) \<Longrightarrow> path_weight g s (snd item) (fst item)"
  by (simp add: inv_path_def)

lemma inv_pathD2: "inv_path g s st \<Longrightarrow> D st v = Some (Fin d) \<Longrightarrow> path_weight g s v d"
  by (simp add: inv_path_def)

lemma inv_path_init: "inv_path g s (init_state g s)"
  unfolding inv_path_def D_init by (auto simp: init_state_def intro: path_weight.start)

lemma inv_path_relax_edge:
  assumes "inv_path g s a" and "relax_edge u cd e a = Inr b"
    and "path_weight g s u cd" and "map_of g u = Some es" and "e \<in> set es"
  shows "inv_path g s b"
proof -
  obtain v w where e: "e = (v, w)" by (cases e)
  from assms(2) [unfolded e] show ?thesis
  proof (cases rule: relax_edge_cases)
    case skip
    then show ?thesis using assms(1) by simp
  next
    case (update old)
    have new: "path_weight g s v (cd + w)"
      using assms(3,4,5) e by (auto intro: path_weight.edge)
    have Db: "D b = (D a)(v \<mapsto> Fin (cd + w))"
      by (simp add: update(4) update_conv')
    have pq: "priority_queue b = (cd + w, v) # priority_queue a"
      by (simp add: update(4))
    show ?thesis
      using assms(1) new unfolding inv_path_def Db pq by auto
  qed
qed

lemma inv_path_loop_body:
  assumes "inv_path g s a" and "priority_queue a \<noteq> []" and "loop_body g a = Inr b"
  shows "inv_path g s b"
  using assms(3)
proof (cases rule: loop_body_cases)
  case stale
  then show ?thesis using assms(1) by (auto simp: inv_path_def dest: in_set_remove1D)
next
  case (settle es)
  let ?m = "min_list (priority_queue a)"
  have pw: "path_weight g s (snd ?m) (fst ?m)"
    using inv_pathD1 [OF assms(1) min_list_in [OF assms(2)]] .
  have "inv_path g s (settle (snd ?m) (a\<lparr> priority_queue := remove1 ?m (priority_queue a) \<rparr>))"
    using assms(1) by (auto simp: inv_path_def dest: in_set_remove1D)
  with settle(3) show ?thesis
    by (rule relax_edges_rule) (rule inv_path_relax_edge [OF _ _ pw settle(2)])
qed

subsection \<open>What one relaxation changes\<close>

text \<open>
  A relaxation leaves the visited set and the table values of visited vertices alone,
  and an integer in the table can only be replaced by a smaller integer.
\<close>

definition step_mono :: "tracer_state \<Rightarrow> tracer_state \<Rightarrow> bool" where
  "step_mono a b =
     (visited_nodes b = visited_nodes a
      \<and> (\<forall>x \<in> visited_nodes a. D b x = D a x)
      \<and> (\<forall>x dx. D a x = Some (Fin dx) \<longrightarrow> (\<exists>dx'. D b x = Some (Fin dx') \<and> dx' \<le> dx)))"

lemma step_mono_refl: "step_mono a a"
  by (simp add: step_mono_def)

lemma relax_edge_mono:
  assumes "relax_edge u cd e a = Inr b"
  shows "step_mono a b"
proof -
  obtain v w where e: "e = (v, w)" by (cases e)
  from assms [unfolded e] show ?thesis
  proof (cases rule: relax_edge_cases)
    case skip
    then show ?thesis by (simp add: step_mono_refl)
  next
    case (update old)
    have Db: "D b = (D a)(v \<mapsto> Fin (cd + w))"
      by (simp add: update(4) update_conv')
    have vis: "visited_nodes b = visited_nodes a" by (simp add: update(4))
    have "\<exists>dx'. D b x = Some (Fin dx') \<and> dx' \<le> dx" if "D a x = Some (Fin dx)" for x dx
      using that update(2,3) by (cases "x = v") (auto simp: Db)
    then show ?thesis
      unfolding step_mono_def using update(1) by (auto simp: Db vis)
  qed
qed

lemma relax_edge_done:
  assumes "relax_edge u cd e a = Inr b" and "fst e \<notin> visited_nodes b"
  shows "\<exists>dv. D b (fst e) = Some (Fin dv) \<and> dv \<le> cd + snd e"
proof -
  obtain v w where e: "e = (v, w)" by (cases e)
  from assms(1) [unfolded e] show ?thesis
  proof (cases rule: relax_edge_cases)
    case skip
    then obtain old where old: "D a v = Some old" "old \<le> Fin (cd + w)"
      using assms(2) e by auto
    then obtain dv where "old = Fin dv" by (cases old) auto
    then show ?thesis using old skip(1) e by auto
  next
    case (update old)
    then show ?thesis by (simp add: e update_conv')
  qed
qed

subsection \<open>Edges out of visited vertices have been relaxed\<close>

definition edges_done :: "tracer_state \<Rightarrow> int \<Rightarrow> (int \<times> int) list \<Rightarrow> bool" where
  "edges_done st du es =
     (\<forall>e \<in> set es. fst e \<notin> visited_nodes st
         \<longrightarrow> (\<exists>dv. D st (fst e) = Some (Fin dv) \<and> dv \<le> du + snd e))"

definition relaxed_from :: "graph \<Rightarrow> tracer_state \<Rightarrow> int set \<Rightarrow> bool" where
  "relaxed_from g st U =
     (\<forall>u \<in> U. \<forall>es du. map_of g u = Some es \<longrightarrow> D st u = Some (Fin du) \<longrightarrow> edges_done st du es)"

lemma edges_done_mono:
  assumes "step_mono a b" and "edges_done a du es"
  shows "edges_done b du es"
  unfolding edges_done_def
proof (intro ballI impI)
  fix e assume e: "e \<in> set es" "fst e \<notin> visited_nodes b"
  then have "fst e \<notin> visited_nodes a" using assms(1) by (simp add: step_mono_def)
  with assms(2) e(1) obtain dv where dv: "D a (fst e) = Some (Fin dv)" "dv \<le> du + snd e"
    by (auto simp: edges_done_def)
  from assms(1) dv(1) obtain dv' where "D b (fst e) = Some (Fin dv')" "dv' \<le> dv"
    unfolding step_mono_def by blast
  with dv(2) show "\<exists>dv. D b (fst e) = Some (Fin dv) \<and> dv \<le> du + snd e" by auto
qed

lemma relaxed_from_mono:
  assumes "step_mono a b" and "relaxed_from g a U" and "U \<subseteq> visited_nodes a"
  shows "relaxed_from g b U"
  unfolding relaxed_from_def
proof (intro ballI allI impI)
  fix u es du
  assume u: "u \<in> U" "map_of g u = Some es" "D b u = Some (Fin du)"
  then have "D a u = Some (Fin du)" using assms(1,3) by (auto simp: step_mono_def)
  with assms(2) u(1,2) have "edges_done a du es" by (simp add: relaxed_from_def)
  with assms(1) show "edges_done b du es" by (rule edges_done_mono)
qed

subsection \<open>The edge loop as a whole\<close>

lemma step_mono_trans: "step_mono a b \<Longrightarrow> step_mono b c \<Longrightarrow> step_mono a c"
  unfolding step_mono_def
  by (intro conjI ballI allI impI) (simp, simp, meson order_trans)

lemma relax_edges_mono:
  assumes "relax_edges u cd es a = Inr b"
  shows "step_mono a b"
  using assms step_mono_refl [of a]
  by (rule relax_edges_rule) (blast intro: step_mono_trans relax_edge_mono)

lemma edges_done_snoc:
  assumes "edges_done a cd ds" and "relax_edge u cd e a = Inr b"
  shows "edges_done b cd (ds @ [e])"
proof -
  have "edges_done b cd ds"
    using relax_edge_mono [OF assms(2)] assms(1) by (rule edges_done_mono)
  then show ?thesis
    using relax_edge_done [OF assms(2)] by (auto simp: edges_done_def)
qed

lemma relax_edges_done:
  assumes "relax_edges u cd es a = Inr b"
  shows "edges_done b cd es"
  using assms
proof (rule relax_edges_rule_done [where P = "\<lambda>ds x. edges_done x cd ds"])
  show "edges_done a cd []" by (simp add: edges_done_def)
next
  fix ds e x y
  assume "edges_done x cd ds" "relax_edge u cd e x = Inr y"
  then show "edges_done y cd (ds @ [e])" by (rule edges_done_snoc)
qed

lemma min_list_le: "x \<in> set xs \<Longrightarrow> min_list xs \<le> (x :: 'a::linorder)"
  using Min_le [of "set xs" x] by (cases "xs = []") (simp_all add: min_list_Min)

lemma min_list_fst_le:
  fixes pq :: "(int \<times> int) list"
  assumes "item \<in> set pq"
  shows "fst (min_list pq) \<le> fst item"
  using min_list_le [OF assms] by (auto simp: less_eq_prod_def)

text \<open>The least entry of the frontier, when its vertex is unvisited, carries the table value.\<close>

lemma popped_is_table_value:
  assumes "inv_fin a" and "priority_queue a \<noteq> []"
    and "snd (min_list (priority_queue a)) \<notin> visited_nodes a"
  shows "D a (snd (min_list (priority_queue a))) = Some (Fin (fst (min_list (priority_queue a))))"
proof -
  let ?m = "min_list (priority_queue a)"
  have "(fst ?m, snd ?m) \<in> set (priority_queue a)"
    using min_list_in [OF assms(2)] by simp
  from inv_finD1 [OF assms(1) this] obtain d where d: "D a (snd ?m) = Some (Fin d)" "d \<le> fst ?m"
    by auto
  have "(d, snd ?m) \<in> set (priority_queue a)"
    using inv_finD3 [OF assms(1,3) d(1)] .
  from min_list_fst_le [OF this] have "fst ?m \<le> d" by simp
  with d show ?thesis by simp
qed

lemma relaxed_from_loop_body:
  assumes "inv_fin a" and "relaxed_from g a (visited_nodes a)"
    and "priority_queue a \<noteq> []" and "loop_body g a = Inr b"
  shows "relaxed_from g b (visited_nodes b)"
  using assms(4)
proof (cases rule: loop_body_cases)
  case stale
  then show ?thesis using assms(2) by (simp add: relaxed_from_def edges_done_def)
next
  case (settle es)
  let ?m = "min_list (priority_queue a)"
  let ?a' = "settle (snd ?m) (a\<lparr> priority_queue := remove1 ?m (priority_queue a) \<rparr>)"
  have mono: "step_mono ?a' b" using settle(3) by (rule relax_edges_mono)
  have visb: "visited_nodes b = insert (snd ?m) (visited_nodes a)"
    using mono by (simp add: step_mono_def)
  have "relaxed_from g ?a' (visited_nodes a)"
    using assms(2) by (simp add: relaxed_from_def edges_done_def)
  with mono have old: "relaxed_from g b (visited_nodes a)"
    by (rule relaxed_from_mono) auto
  have Du: "D b (snd ?m) = Some (Fin (fst ?m))"
    using mono popped_is_table_value [OF assms(1,3) settle(1)] by (simp add: step_mono_def)
  have "edges_done b (fst ?m) es" using settle(3) by (rule relax_edges_done)
  then have "relaxed_from g b {snd ?m}"
    using Du settle(2) by (simp add: relaxed_from_def)
  with old show ?thesis
    unfolding visb relaxed_from_def by blast
qed

definition inv_relaxed :: "graph \<Rightarrow> int \<Rightarrow> tracer_state \<Rightarrow> bool" where
  "inv_relaxed g s st =
     (inv_fin st \<and> inv_path g s st \<and> relaxed_from g st (visited_nodes st)
      \<and> (\<exists>d. D st s = Some (Fin d)))"

lemma inv_relaxed_init: "inv_relaxed g s (init_state g s)"
  unfolding inv_relaxed_def
  by (intro conjI inv_fin_init inv_path_init)
     (simp_all add: relaxed_from_def D_init, simp add: init_state_def)

lemma loop_body_mono_fin:
  assumes "loop_body g a = Inr b" and "D a x = Some (Fin d)"
  shows "\<exists>d'. D b x = Some (Fin d')"
  using assms(1)
proof (cases rule: loop_body_cases)
  case stale
  then show ?thesis using assms(2) by simp
next
  case (settle es)
  from relax_edges_mono [OF settle(3)] assms(2) show ?thesis
    unfolding step_mono_def by (simp, blast)
qed

lemma inv_relaxed_loop_body:
  assumes "inv_relaxed g s a" and "priority_queue a \<noteq> []" and "loop_body g a = Inr b"
  shows "inv_relaxed g s b"
  using assms(1) unfolding inv_relaxed_def
  by (auto intro: inv_fin_loop_body [OF _ assms(2,3)] inv_path_loop_body [OF _ assms(2,3)]
      relaxed_from_loop_body [OF _ _ assms(2,3)] loop_body_mono_fin [OF assms(3)])

section \<open>Correctness of the distances for non-negative weights\<close>

text \<open>
  Settled values are least: the table value of a visited vertex is below the weight of
  every walk to it. The start vertex is visited or still has the value 0.
\<close>

definition inv_short :: "graph \<Rightarrow> int \<Rightarrow> tracer_state \<Rightarrow> bool" where
  "inv_short g s st =
     ((\<forall>v \<in> visited_nodes st. \<forall>d d'. D st v = Some (Fin d) \<longrightarrow> path_weight g s v d' \<longrightarrow> d \<le> d')
      \<and> (s \<in> visited_nodes st \<or> D st s = Some (Fin 0)))"

lemma inv_short_init: "inv_short g s (init_state g s)"
  unfolding inv_short_def D_init by (simp add: init_state_def)

text \<open>
  Every walk that ends at an unvisited vertex weighs at least as much as some frontier
  entry's key: by induction on the walk, looking at its last edge.
\<close>

lemma frontier_below_walk:
  assumes "path_weight g s v d'" and "v \<notin> visited_nodes st"
    and "nonneg_weights g" and "inv_fin st" and "relaxed_from g st (visited_nodes st)"
    and "inv_short g s st"
  shows "\<exists>item \<in> set (priority_queue st). fst item \<le> d'"
  using assms(1,2)
proof (induction rule: path_weight.induct)
  case start
  then have "D st s = Some (Fin 0)" using assms(6) by (simp add: inv_short_def)
  from inv_finD3 [OF assms(4) start this] show ?case by force
next
  case (edge u d es v w)
  have w: "0 \<le> w" using nonneg_weights_edge [OF assms(3) edge(2,3)] .
  show ?case
  proof (cases "u \<in> visited_nodes st")
    case False
    from edge.IH [OF False] w show ?thesis by force
  next
    case True
    from inv_finD2 [OF assms(4) True] obtain du where du: "D st u = Some (Fin du)" by auto
    have "du \<le> d" using assms(6) True du edge(1) unfolding inv_short_def by blast
    have "edges_done st du es" using assms(5) True edge(2) du by (simp add: relaxed_from_def)
    then obtain dv where dv: "D st v = Some (Fin dv)" "dv \<le> du + w"
      using edge(3,5) by (force simp: edges_done_def)
    from inv_finD3 [OF assms(4) edge(5) dv(1)] have "(dv, v) \<in> set (priority_queue st)" .
    moreover have "dv \<le> d + w" using dv(2) \<open>du \<le> d\<close> by simp
    ultimately show ?thesis by force
  qed
qed

lemma inv_short_mono:
  assumes "step_mono a b" and "inv_short g s a" and "inv_path g s b" and "nonneg_weights g"
  shows "inv_short g s b"
proof -
  have 1: "d \<le> d'" if "v \<in> visited_nodes b" "D b v = Some (Fin d)" "path_weight g s v d'" for v d d'
  proof -
    have "v \<in> visited_nodes a" "D a v = Some (Fin d)"
      using that(1,2) assms(1) by (auto simp: step_mono_def)
    then show ?thesis using assms(2) that(3) unfolding inv_short_def by blast
  qed
  have 2: "s \<in> visited_nodes b \<or> D b s = Some (Fin 0)"
  proof (cases "s \<in> visited_nodes a")
    case True
    then show ?thesis using assms(1) by (simp add: step_mono_def)
  next
    case False
    then have "D a s = Some (Fin 0)" using assms(2) by (simp add: inv_short_def)
    then obtain d where d: "D b s = Some (Fin d)" "d \<le> 0"
      using assms(1) unfolding step_mono_def by blast
    have "0 \<le> d" using path_weight_nonneg [OF inv_pathD2 [OF assms(3) d(1)] assms(4)] .
    with d show ?thesis by simp
  qed
  show ?thesis unfolding inv_short_def using 1 2 by blast
qed

definition inv_dijkstra :: "graph \<Rightarrow> int \<Rightarrow> tracer_state \<Rightarrow> bool" where
  "inv_dijkstra g s st = (inv_dom g st \<and> inv_relaxed g s st \<and> inv_short g s st)"

lemma inv_short_loop_body:
  assumes "nonneg_weights g" and "inv_relaxed g s a" and "inv_short g s a"
    and "priority_queue a \<noteq> []" and "loop_body g a = Inr b"
  shows "inv_short g s b"
proof -
  have fin: "inv_fin a" and rel: "relaxed_from g a (visited_nodes a)"
    using assms(2) by (simp_all add: inv_relaxed_def)
  have pb: "inv_path g s b"
    using inv_relaxed_loop_body [OF assms(2,4,5)] by (simp add: inv_relaxed_def)
  from assms(5) show ?thesis
  proof (cases rule: loop_body_cases)
    case stale
    then show ?thesis using assms(3) by (simp add: inv_short_def)
  next
    case (settle es)
    let ?m = "min_list (priority_queue a)"
    let ?a' = "settle (snd ?m) (a\<lparr> priority_queue := remove1 ?m (priority_queue a) \<rparr>)"
    have Du: "D a (snd ?m) = Some (Fin (fst ?m))"
      using popped_is_table_value [OF fin assms(4) settle(1)] .
    have least: "fst ?m \<le> d'" if "path_weight g s (snd ?m) d'" for d'
    proof -
      from frontier_below_walk [OF that settle(1) assms(1) fin rel assms(3)]
      obtain item where "item \<in> set (priority_queue a)" "fst item \<le> d'" by auto
      with min_list_fst_le [of item "priority_queue a"] show ?thesis by simp
    qed
    have "inv_short g s ?a'"
      using assms(3) Du least unfolding inv_short_def by auto
    with relax_edges_mono [OF settle(3)] show ?thesis
      using pb assms(1) by (rule inv_short_mono)
  qed
qed

lemma inv_dijkstra_init: "s \<in> fst ` set g \<Longrightarrow> inv_dijkstra g s (init_state g s)"
  by (simp add: inv_dijkstra_def inv_dom_init inv_relaxed_init inv_short_init)

lemma inv_dijkstra_loop_body:
  assumes "nonneg_weights g" and "inv_dijkstra g s a"
    and "priority_queue a \<noteq> []" and "loop_body g a = Inr b"
  shows "inv_dijkstra g s b"
  using assms(2) unfolding inv_dijkstra_def
  by (auto intro: inv_dom_loop_body [OF _ assms(4)] inv_relaxed_loop_body [OF _ assms(3,4)]
      inv_short_loop_body [OF assms(1) _ _ assms(3,4)])

text \<open>When the frontier is empty, the visited vertices are exactly the reachable ones.\<close>

lemma reachable_visited_at_end:
  assumes "path_weight g s v d" and "inv_relaxed g s st" and "priority_queue st = []"
  shows "v \<in> visited_nodes st"
  using assms(1)
proof (induction rule: path_weight.induct)
  case start
  show ?case
  proof (rule ccontr)
    assume n: "s \<notin> visited_nodes st"
    obtain d0 where "D st s = Some (Fin d0)" using assms(2) by (auto simp: inv_relaxed_def)
    from inv_finD3 [OF _ n this] assms(2,3) show False by (simp add: inv_relaxed_def)
  qed
next
  case (edge u d es v w)
  have fin: "inv_fin st" using assms(2) by (simp add: inv_relaxed_def)
  from inv_finD2 [OF fin edge.IH] obtain du where du: "D st u = Some (Fin du)" by auto
  have ed: "edges_done st du es"
    using assms(2) edge.IH edge(2) du by (simp add: inv_relaxed_def relaxed_from_def)
  show ?case
  proof (rule ccontr)
    assume n: "v \<notin> visited_nodes st"
    with ed edge(3) obtain dv where "D st v = Some (Fin dv)"
      by (force simp: edges_done_def)
    from inv_finD3 [OF fin n this] assms(3) show False by simp
  qed
qed

lemma visited_reachable:
  assumes "inv_relaxed g s st" and "v \<in> visited_nodes st"
  shows "reachable g s v"
proof -
  have fin: "inv_fin st" and p: "inv_path g s st" using assms(1) by (simp_all add: inv_relaxed_def)
  from inv_finD2 [OF fin assms(2)] obtain d where "D st v = Some (Fin d)" by auto
  from inv_pathD2 [OF p this] show ?thesis by (auto simp: reachable_def)
qed

text \<open>
  Claim C1. For every graph with non-negative weights whose edges lead to vertices of
  the graph, and every start vertex of the graph, the run returns a distance table
  that maps each reachable vertex to its shortest distance (the least weight of a walk
  from the start vertex) and each unreachable vertex to the infinite sentinel.
\<close>

theorem dijkstra_distances_correct:
  assumes "valid_input g s" and "nonneg_weights g"
  shows "\<exists>fd steps. dijkstra_with_steps g s = Inr (fd, steps)
           \<and> (\<forall>v \<in> fst ` set g.
                 (reachable g s v \<longrightarrow> (\<exists>d. map_of fd v = Some (Fin d) \<and> shortest_distance g s v d))
                 \<and> (\<not> reachable g s v \<longrightarrow> map_of fd v = Some Infinity))"
proof -
  obtain st where st: "dijkstra_loop g (init_state g s) = Inr st"
    using valid_input_returns [OF assms(1)] by auto
  have s: "s \<in> fst ` set g" using assms(1) by (simp add: valid_input_def)
  have "inv_dijkstra g s st \<and> priority_queue st = []"
    using st inv_dijkstra_init [OF s]
    by (rule dijkstra_loop_rule) (rule inv_dijkstra_loop_body [OF assms(2)])
  then have dom: "inv_dom g st" and rel: "inv_relaxed g s st" and sh: "inv_short g s st"
    and emp: "priority_queue st = []"
    by (simp_all add: inv_dijkstra_def)
  have fin: "inv_fin st" and p: "inv_path g s st" using rel by (simp_all add: inv_relaxed_def)
  have 1: "\<exists>d. D st v = Some (Fin d) \<and> shortest_distance g s v d" if "reachable g s v" for v
  proof -
    from that obtain d0 where "path_weight g s v d0" by (auto simp: reachable_def)
    then have v: "v \<in> visited_nodes st" using rel emp by (rule reachable_visited_at_end)
    from inv_finD2 [OF fin v] obtain d where d: "D st v = Some (Fin d)" by auto
    have "path_weight g s v d" using inv_pathD2 [OF p d] .
    moreover have "\<forall>d'. path_weight g s v d' \<longrightarrow> d \<le> d'"
      using sh v d unfolding inv_short_def by blast
    ultimately show ?thesis using d by (auto simp: shortest_distance_def)
  qed
  have 2: "D st v = Some Infinity" if "v \<in> fst ` set g" "\<not> reachable g s v" for v
  proof -
    have "v \<in> dom (D st)" using dom that(1) by (simp add: inv_dom_def)
    then obtain x where x: "D st v = Some x" by auto
    have "x \<noteq> Fin d" for d
      using inv_pathD2 [OF p, of v d] x that(2) by (auto simp: reachable_def)
    then have "x = Infinity" by (cases x) auto
    with x show ?thesis by simp
  qed
  show ?thesis
    using st 1 2 by (auto simp: dijkstra_with_steps_def)
qed

text \<open>
  The theorem at the spec's scenario graph with one more vertex, 4, that has an edge
  into the graph but none leading to it: the least weight of a walk from 0 to 3 is 7,
  and 4 is unreachable.
\<close>

theorem dijkstra_distances_correct_witness:
  "valid_input ((4, [(0, 1)]) # scenario_graph) 0
   \<and> nonneg_weights ((4, [(0, 1)]) # scenario_graph)
   \<and> shortest_distance ((4, [(0, 1)]) # scenario_graph) 0 3 7
   \<and> \<not> reachable ((4, [(0, 1)]) # scenario_graph) 0 4"
proof -
  let ?g = "(4, [(0, 1)]) # scenario_graph"
  have v: "valid_input ?g 0"
    by (simp add: valid_input_def closed_graph_def scenario_graph_def)
  have n: "nonneg_weights ?g"
    by (simp add: nonneg_weights_def scenario_graph_def)
  from dijkstra_distances_correct [OF v n] obtain fd steps
    where r: "dijkstra_with_steps ?g 0 = Inr (fd, steps)"
      and c: "\<forall>v \<in> fst ` set ?g.
                 (reachable ?g 0 v \<longrightarrow> (\<exists>d. map_of fd v = Some (Fin d) \<and> shortest_distance ?g 0 v d))
                 \<and> (\<not> reachable ?g 0 v \<longrightarrow> map_of fd v = Some Infinity)"
    by blast
  have "map_sum id fst (dijkstra_with_steps ?g 0)
          = Inr [(4, Infinity), (0, Fin 0), (1, Fin 6), (2, Fin 1), (3, Fin 7)]"
    by code_simp
  then have fd: "fd = [(4, Infinity), (0, Fin 0), (1, Fin 6), (2, Fin 1), (3, Fin 7)]"
    using r by simp
  have k: "3 \<in> fst ` set ?g" "4 \<in> fst ` set ?g" by (simp_all add: scenario_graph_def)
  have "shortest_distance ?g 0 3 7"
    using c [rule_format, OF k(1)] by (cases "reachable ?g 0 3") (auto simp: fd)
  moreover have "\<not> reachable ?g 0 4"
    using c [rule_format, OF k(2)] by (cases "reachable ?g 0 4") (auto simp: fd)
  ultimately show ?thesis using v n by simp
qed

section \<open>The visited-set snapshots along the log\<close>

definition is_settlement :: "event \<Rightarrow> bool" where
  "is_settlement e = (visited_path e = None)"

text \<open>
  How one step's visited-set snapshot follows from the snapshot before it: a settlement
  step adds its vertex, which was not in the set; a relaxation step repeats the set.
\<close>

definition step_ok :: "int set \<Rightarrow> event \<Rightarrow> bool" where
  "step_ok V e =
     (if is_settlement e then visited_node e \<notin> V \<and> visited_nodes_set e = insert (visited_node e) V
      else visited_nodes_set e = V)"

fun log_chain :: "int set \<Rightarrow> event list \<Rightarrow> bool" where
  "log_chain V [] = True"
| "log_chain V (e # es) = (step_ok V e \<and> log_chain (visited_nodes_set e) es)"

definition last_snapshot :: "int set \<Rightarrow> event list \<Rightarrow> int set" where
  "last_snapshot V es = (if es = [] then V else visited_nodes_set (last es))"

lemma last_snapshot_simps [simp]:
  "last_snapshot V [] = V"
  "last_snapshot V (es @ [e]) = visited_nodes_set e"
  by (simp_all add: last_snapshot_def)

lemma last_snapshot_Cons: "last_snapshot V (e # es) = last_snapshot (visited_nodes_set e) es"
  by (simp add: last_snapshot_def)

lemma log_chain_snoc:
  "log_chain V (es @ [e]) = (log_chain V es \<and> step_ok (last_snapshot V es) e)"
  by (induction es arbitrary: V) (auto simp: last_snapshot_Cons)

lemma last_snapshot_nth: "es \<noteq> [] \<Longrightarrow> last_snapshot V es = visited_nodes_set (es ! (length es - 1))"
  by (simp add: last_snapshot_def last_conv_nth)

lemma step_ok_subset: "step_ok V e \<Longrightarrow> V \<subseteq> visited_nodes_set e"
  by (auto simp: step_ok_def split: if_splits)

lemma log_chain_last_superset: "log_chain V es \<Longrightarrow> V \<subseteq> last_snapshot V es"
proof (induction es rule: rev_induct)
  case Nil
  then show ?case by simp
next
  case (snoc e es)
  then show ?case using step_ok_subset [of "last_snapshot V es" e] by (auto simp: log_chain_snoc)
qed

lemma log_chain_nth_subset_last:
  "log_chain V es \<Longrightarrow> i < length es \<Longrightarrow> visited_nodes_set (es ! i) \<subseteq> last_snapshot V es"
proof (induction es rule: rev_induct)
  case Nil
  then show ?case by simp
next
  case (snoc e es)
  show ?case
  proof (cases "i < length es")
    case True
    then have "visited_nodes_set (es ! i) \<subseteq> last_snapshot V es"
      using snoc by (simp add: log_chain_snoc)
    moreover have "last_snapshot V es \<subseteq> visited_nodes_set e"
      using snoc.prems(1) by (simp add: log_chain_snoc step_ok_subset)
    ultimately show ?thesis using True by (simp add: nth_append)
  next
    case False
    then have "i = length es" using snoc.prems(2) by simp
    then show ?thesis by simp
  qed
qed

lemma log_chain_monotone:
  "log_chain V es \<Longrightarrow> i \<le> j \<Longrightarrow> j < length es
     \<Longrightarrow> visited_nodes_set (es ! i) \<subseteq> visited_nodes_set (es ! j)"
proof (induction es rule: rev_induct)
  case Nil
  then show ?case by simp
next
  case (snoc e es)
  show ?case
  proof (cases "j < length es")
    case True
    then show ?thesis using snoc by (simp add: log_chain_snoc nth_append)
  next
    case False
    then have j: "j = length es" using snoc.prems(3) by simp
    show ?thesis
    proof (cases "i = j")
      case True
      then show ?thesis by simp
    next
      case False
      then have i: "i < length es" using snoc.prems(2) j by simp
      have "visited_nodes_set (es ! i) \<subseteq> last_snapshot V es"
        using snoc.prems(1) i by (simp add: log_chain_snoc log_chain_nth_subset_last)
      moreover have "last_snapshot V es \<subseteq> visited_nodes_set e"
        using snoc.prems(1) by (simp add: log_chain_snoc step_ok_subset)
      ultimately show ?thesis using i j by (simp add: nth_append)
    qed
  qed
qed

lemma log_chain_no_settlement:
  "log_chain V es \<Longrightarrow> \<forall>i < length es. \<not> is_settlement (es ! i) \<Longrightarrow> last_snapshot V es = V"
proof (induction es rule: rev_induct)
  case Nil
  then show ?case by simp
next
  case (snoc e es)
  have "\<forall>i < length es. \<not> is_settlement (es ! i)"
  proof (intro allI impI)
    fix i assume "i < length es"
    then show "\<not> is_settlement (es ! i)"
      using snoc.prems(2) [rule_format, of i] by (simp add: nth_append)
  qed
  then have "last_snapshot V es = V" using snoc by (simp add: log_chain_snoc)
  moreover have "\<not> is_settlement e"
    using snoc.prems(2) [rule_format, of "length es"] by simp
  ultimately show ?case using snoc.prems(1) by (simp add: log_chain_snoc step_ok_def)
qed

lemma log_chain_after_last_settlement:
  "log_chain V es \<Longrightarrow> j < length es
     \<Longrightarrow> \<forall>i. j < i \<and> i < length es \<longrightarrow> \<not> is_settlement (es ! i)
     \<Longrightarrow> last_snapshot V es = visited_nodes_set (es ! j)"
proof (induction es rule: rev_induct)
  case Nil
  then show ?case by simp
next
  case (snoc e es)
  show ?case
  proof (cases "j < length es")
    case True
    have "\<forall>i. j < i \<and> i < length es \<longrightarrow> \<not> is_settlement (es ! i)"
    proof (intro allI impI)
      fix i assume "j < i \<and> i < length es"
      then show "\<not> is_settlement (es ! i)"
        using snoc.prems(3) [rule_format, of i] by (simp add: nth_append)
    qed
    then have "last_snapshot V es = visited_nodes_set (es ! j)"
      using snoc True by (simp add: log_chain_snoc)
    moreover have "\<not> is_settlement e"
      using snoc.prems(3) [rule_format, of "length es"] True by simp
    ultimately show ?thesis
      using snoc.prems(1) True by (simp add: log_chain_snoc step_ok_def nth_append)
  next
    case False
    then have "j = length es" using snoc.prems(2) by simp
    then show ?thesis by simp
  qed
qed

lemma log_chain_settlement_step:
  assumes "log_chain V es" and "k < length es" and "is_settlement (es ! k)"
  shows "visited_node (es ! k) \<notin> last_snapshot V (take k es)
         \<and> visited_nodes_set (es ! k) = insert (visited_node (es ! k)) (last_snapshot V (take k es))"
  using assms
proof (induction es rule: rev_induct)
  case Nil
  then show ?case by simp
next
  case (snoc e es)
  show ?case
  proof (cases "k < length es")
    case True
    then show ?thesis using snoc by (simp add: log_chain_snoc nth_append)
  next
    case False
    then have "k = length es" using snoc.prems(2) by simp
    then show ?thesis using snoc.prems(1,3) by (simp add: log_chain_snoc step_ok_def)
  qed
qed

lemma log_chain_take: "log_chain V es \<Longrightarrow> log_chain V (take k es)"
proof (induction es rule: rev_induct)
  case Nil
  then show ?case by simp
next
  case (snoc e es)
  then show ?case by (cases "k \<le> length es") (simp_all add: log_chain_snoc)
qed

lemma log_chain_first_settlement:
  assumes "log_chain V es" and "k < length es" and "is_settlement (es ! k)"
    and "\<forall>j < k. \<not> is_settlement (es ! j)"
  shows "visited_nodes_set (es ! k) = insert (visited_node (es ! k)) V \<and> visited_node (es ! k) \<notin> V"
proof -
  have "last_snapshot V (take k es) = V"
  proof (rule log_chain_no_settlement [OF log_chain_take [OF assms(1)]])
    show "\<forall>i<length (take k es). \<not> is_settlement (take k es ! i)"
      using assms(2,4) by simp
  qed
  with log_chain_settlement_step [OF assms(1,2,3)] show ?thesis by simp
qed

lemma log_chain_next_settlement:
  assumes "log_chain V es" and "j < k" and "k < length es"
    and "is_settlement (es ! k)"
    and "\<forall>i. j < i \<and> i < k \<longrightarrow> \<not> is_settlement (es ! i)"
  shows "visited_nodes_set (es ! k) = insert (visited_node (es ! k)) (visited_nodes_set (es ! j))
         \<and> visited_node (es ! k) \<notin> visited_nodes_set (es ! j)"
proof -
  have "last_snapshot V (take k es) = visited_nodes_set (take k es ! j)"
  proof (rule log_chain_after_last_settlement [OF log_chain_take [OF assms(1)]])
    show "j < length (take k es)" using assms(2,3) by simp
    show "\<forall>i. j < i \<and> i < length (take k es) \<longrightarrow> \<not> is_settlement (take k es ! i)"
      using assms(3,5) by simp
  qed
  then have "last_snapshot V (take k es) = visited_nodes_set (es ! j)"
    using assms(2) by simp
  with log_chain_settlement_step [OF assms(1,3,4)] show ?thesis by simp
qed

lemma log_chain_finite:
  "log_chain V es \<Longrightarrow> finite V \<Longrightarrow> finite (last_snapshot V es)"
proof (induction es rule: rev_induct)
  case Nil
  then show ?case by simp
next
  case (snoc e es)
  then show ?case by (auto simp: log_chain_snoc step_ok_def split: if_splits)
qed

lemma log_chain_nth_finite:
  assumes "log_chain V es" and "finite V" and "i < length es"
  shows "finite (visited_nodes_set (es ! i))"
proof -
  have "finite (last_snapshot V es)" using assms(1,2) by (rule log_chain_finite)
  with log_chain_nth_subset_last [OF assms(1,3)] show ?thesis by (rule finite_subset)
qed

lemma log_chain_last_settlement_exists:
  "log_chain V es \<Longrightarrow> last_snapshot V es \<noteq> V
     \<Longrightarrow> \<exists>k < length es. is_settlement (es ! k)
            \<and> (\<forall>i. k < i \<and> i < length es \<longrightarrow> \<not> is_settlement (es ! i))
            \<and> visited_nodes_set (es ! k) = last_snapshot V es"
proof (induction es rule: rev_induct)
  case Nil
  then show ?case by simp
next
  case (snoc e es)
  show ?case
  proof (cases "is_settlement e")
    case True
    then have "is_settlement ((es @ [e]) ! length es)
        \<and> (\<forall>i. length es < i \<and> i < length (es @ [e]) \<longrightarrow> \<not> is_settlement ((es @ [e]) ! i))
        \<and> visited_nodes_set ((es @ [e]) ! length es) = last_snapshot V (es @ [e])"
      by auto
    then show ?thesis by (intro exI [of _ "length es"]) simp
  next
    case False
    then have eq: "visited_nodes_set e = last_snapshot V es"
      using snoc.prems(1) by (simp add: log_chain_snoc step_ok_def)
    then have "last_snapshot V es \<noteq> V" using snoc.prems(2) by simp
    with snoc obtain k where k: "k < length es" "is_settlement (es ! k)"
      "\<forall>i. k < i \<and> i < length es \<longrightarrow> \<not> is_settlement (es ! i)"
      "visited_nodes_set (es ! k) = last_snapshot V es"
      by (auto simp: log_chain_snoc)
    have "\<forall>i. k < i \<and> i < length (es @ [e]) \<longrightarrow> \<not> is_settlement ((es @ [e]) ! i)"
    proof (intro allI impI)
      fix i assume i: "k < i \<and> i < length (es @ [e])"
      show "\<not> is_settlement ((es @ [e]) ! i)"
        using i k(3) False by (cases "i < length es") (auto simp: nth_append)
    qed
    then show ?thesis
      using k eq by (intro exI [of _ k]) (simp add: nth_append)
  qed
qed

subsection \<open>The log of a run is such a chain\<close>

definition inv_log :: "tracer_state \<Rightarrow> bool" where
  "inv_log st =
     (finite (visited_nodes st) \<and> log_chain {} (animation_steps st)
      \<and> last_snapshot {} (animation_steps st) = visited_nodes st)"

lemma inv_log_init: "inv_log (init_state g s)"
  by (simp add: inv_log_def init_state_def)

lemma inv_log_relax_edge:
  assumes "inv_log a" and "relax_edge u cd e a = Inr b"
  shows "inv_log b"
proof -
  obtain v w where e: "e = (v, w)" by (cases e)
  from assms(2) [unfolded e] show ?thesis
  proof (cases rule: relax_edge_cases)
    case skip
    then show ?thesis using assms(1) by simp
  next
    case (update old)
    show ?thesis
      using assms(1) unfolding inv_log_def update(4)
      by (simp add: log_chain_snoc step_ok_def is_settlement_def)
  qed
qed

lemma inv_log_settle:
  assumes "inv_log a" and "u \<notin> visited_nodes a"
  shows "inv_log (settle u a)"
  using assms unfolding inv_log_def
  by (simp add: log_chain_snoc step_ok_def is_settlement_def)

lemma inv_log_loop_body:
  assumes "inv_log a" and "loop_body g a = Inr b"
  shows "inv_log b"
  using assms(2)
proof (cases rule: loop_body_cases)
  case stale
  then show ?thesis using assms(1) by (simp add: inv_log_def)
next
  case (settle es)
  let ?m = "min_list (priority_queue a)"
  have "inv_log (a\<lparr> priority_queue := remove1 ?m (priority_queue a) \<rparr>)"
    using assms(1) by (simp add: inv_log_def)
  then have "inv_log (settle (snd ?m) (a\<lparr> priority_queue := remove1 ?m (priority_queue a) \<rparr>))"
    by (rule inv_log_settle) (simp add: settle(1))
  with settle(3) show ?thesis
    by (rule relax_edges_rule) (rule inv_log_relax_edge)
qed

text \<open>
  Claim C6. On every valid input the run returns a log in which
  \<^item> the visited-set snapshot never loses a vertex from one step to a later one;
  \<^item> the snapshot of the first settlement step has exactly one vertex;
  \<^item> the snapshot of every further settlement step has exactly one vertex more than the
    snapshot of the settlement step before it;
  \<^item> the snapshot of the last settlement step is the set of vertices reachable from the
    start vertex.
\<close>

theorem visited_set_growth:
  assumes "valid_input g s"
  shows "\<exists>fd steps. dijkstra_with_steps g s = Inr (fd, steps)
     \<and> (\<forall>i j. i \<le> j \<and> j < length steps
            \<longrightarrow> visited_nodes_set (steps ! i) \<subseteq> visited_nodes_set (steps ! j))
     \<and> (\<forall>k. k < length steps \<and> is_settlement (steps ! k)
              \<and> (\<forall>j < k. \<not> is_settlement (steps ! j))
            \<longrightarrow> card (visited_nodes_set (steps ! k)) = 1)
     \<and> (\<forall>j k. j < k \<and> k < length steps \<and> is_settlement (steps ! j) \<and> is_settlement (steps ! k)
              \<and> (\<forall>i. j < i \<and> i < k \<longrightarrow> \<not> is_settlement (steps ! i))
            \<longrightarrow> card (visited_nodes_set (steps ! k)) = Suc (card (visited_nodes_set (steps ! j))))
     \<and> (\<exists>k < length steps. is_settlement (steps ! k)
              \<and> (\<forall>i. k < i \<and> i < length steps \<longrightarrow> \<not> is_settlement (steps ! i))
              \<and> visited_nodes_set (steps ! k) = {v. reachable g s v})"
proof -
  obtain st where st: "dijkstra_loop g (init_state g s) = Inr st"
    using valid_input_returns [OF assms] by auto
  have "inv_log st \<and> priority_queue st = []"
    using st inv_log_init by (rule dijkstra_loop_rule) (rule inv_log_loop_body)
  then have chain: "log_chain {} (animation_steps st)"
    and lst: "last_snapshot {} (animation_steps st) = visited_nodes st"
    by (simp_all add: inv_log_def)
  have "inv_relaxed g s st \<and> priority_queue st = []"
    using st inv_relaxed_init by (rule dijkstra_loop_rule) (rule inv_relaxed_loop_body)
  then have rel: "inv_relaxed g s st" and emp: "priority_queue st = []" by simp_all
  let ?steps = "animation_steps st"
  have vis: "visited_nodes st = {v. reachable g s v}"
    using reachable_visited_at_end [OF _ rel emp] visited_reachable [OF rel]
    by (auto simp: reachable_def)
  have 1: "visited_nodes_set (?steps ! i) \<subseteq> visited_nodes_set (?steps ! j)"
    if "i \<le> j \<and> j < length ?steps" for i j
    using log_chain_monotone [OF chain, of i j] that by simp
  have 2: "card (visited_nodes_set (?steps ! k)) = 1"
    if "k < length ?steps \<and> is_settlement (?steps ! k) \<and> (\<forall>j < k. \<not> is_settlement (?steps ! j))"
    for k
    using log_chain_first_settlement [OF chain, of k] that by simp
  have 3: "card (visited_nodes_set (?steps ! k)) = Suc (card (visited_nodes_set (?steps ! j)))"
    if h: "j < k \<and> k < length ?steps \<and> is_settlement (?steps ! j) \<and> is_settlement (?steps ! k)
        \<and> (\<forall>i. j < i \<and> i < k \<longrightarrow> \<not> is_settlement (?steps ! i))" for j k
  proof -
    have "finite (visited_nodes_set (?steps ! j))"
      using log_chain_nth_finite [OF chain, of j] h by simp
    then show ?thesis
      using log_chain_next_settlement [OF chain, of j k] h by simp
  qed
  have "s \<in> visited_nodes st"
    unfolding vis using path_weight.start [of g s] by (auto simp: reachable_def)
  then have "last_snapshot {} ?steps \<noteq> {}" using lst by auto
  from log_chain_last_settlement_exists [OF chain this]
  have 4: "\<exists>k < length ?steps. is_settlement (?steps ! k)
              \<and> (\<forall>i. k < i \<and> i < length ?steps \<longrightarrow> \<not> is_settlement (?steps ! i))
              \<and> visited_nodes_set (?steps ! k) = {v. reachable g s v}"
    by (simp add: lst vis)
  have "dijkstra_with_steps g s = Inr (distances_live st, ?steps)"
    using st by (simp add: dijkstra_with_steps_def)
  with 1 2 3 4 show ?thesis by blast
qed

lemma scenario_run:
  "dijkstra_with_steps scenario_graph 0
     = Inr ([(0, Fin 0), (1, Fin 6), (2, Fin 1), (3, Fin 7)],
            [\<lparr> visited_node = 0, visited_path = None,
                distances = [(0, Fin 0), (1, Infinity), (2, Infinity), (3, Infinity)],
                visited_nodes_set = {0} \<rparr>,
             \<lparr> visited_node = 0, visited_path = Some (0, 1),
                distances = [(0, Fin 0), (1, Fin 6), (2, Infinity), (3, Infinity)],
                visited_nodes_set = {0} \<rparr>,
             \<lparr> visited_node = 0, visited_path = Some (0, 2),
                distances = [(0, Fin 0), (1, Fin 6), (2, Fin 1), (3, Infinity)],
                visited_nodes_set = {0} \<rparr>,
             \<lparr> visited_node = 2, visited_path = None,
                distances = [(0, Fin 0), (1, Fin 6), (2, Fin 1), (3, Infinity)],
                visited_nodes_set = {0, 2} \<rparr>,
             \<lparr> visited_node = 2, visited_path = Some (2, 3),
                distances = [(0, Fin 0), (1, Fin 6), (2, Fin 1), (3, Fin 11)],
                visited_nodes_set = {0, 2} \<rparr>,
             \<lparr> visited_node = 1, visited_path = None,
                distances = [(0, Fin 0), (1, Fin 6), (2, Fin 1), (3, Fin 11)],
                visited_nodes_set = {0, 1, 2} \<rparr>,
             \<lparr> visited_node = 1, visited_path = Some (1, 3),
                distances = [(0, Fin 0), (1, Fin 6), (2, Fin 1), (3, Fin 7)],
                visited_nodes_set = {0, 1, 2} \<rparr>,
             \<lparr> visited_node = 3, visited_path = None,
                distances = [(0, Fin 0), (1, Fin 6), (2, Fin 1), (3, Fin 7)],
                visited_nodes_set = {0, 1, 2, 3} \<rparr>])"
  by code_simp

lemma valid_scenario: "valid_input scenario_graph 0"
  by (simp add: valid_input_def closed_graph_def scenario_graph_def)

text \<open>
  On the spec's scenario graph the theorem gives the set of reachable vertices: it is
  the snapshot of the last settlement step, the eighth step of the run.
\<close>

theorem visited_set_growth_witness:
  "valid_input scenario_graph 0 \<and> {v. reachable scenario_graph 0 v} = {0, 1, 2, 3}"
proof -
  from visited_set_growth [OF valid_scenario] obtain fd steps k
    where r: "dijkstra_with_steps scenario_graph 0 = Inr (fd, steps)"
      and k: "k < length steps" "is_settlement (steps ! k)"
        "\<forall>i. k < i \<and> i < length steps \<longrightarrow> \<not> is_settlement (steps ! i)"
        "visited_nodes_set (steps ! k) = {v. reachable scenario_graph 0 v}"
    by blast
  have len: "length steps = 8" and l: "is_settlement (steps ! 7)"
    and v: "visited_nodes_set (steps ! 7) = {0, 1, 2, 3}"
    using r unfolding scenario_run by (auto simp: is_settlement_def)
  have "\<not> k < 7" using k(3) [rule_format, of 7] l len by auto
  then have "k = 7" using k(1) len by simp
  with k(4) v valid_scenario show ?thesis by simp
qed

section \<open>Relaxation steps\<close>

text \<open>
  \<open>strictly_below es i v\<close>: the distance snapshot of step \<open>i\<close> gives \<open>v\<close> a value strictly
  smaller than the snapshot of every earlier step does. \<open>settled_before es i u\<close>: an
  earlier step is the settlement of \<open>u\<close>, and step \<open>i\<close> has the same visited-set snapshot.
\<close>

definition strictly_below :: "event list \<Rightarrow> nat \<Rightarrow> int \<Rightarrow> bool" where
  "strictly_below es i v =
     (\<forall>j < i. \<exists>a b. map_of (distances (es ! i)) v = Some a
                   \<and> map_of (distances (es ! j)) v = Some b \<and> a < b)"

definition settled_before :: "event list \<Rightarrow> nat \<Rightarrow> int \<Rightarrow> bool" where
  "settled_before es i u =
     (\<exists>k < i. is_settlement (es ! k) \<and> visited_node (es ! k) = u
             \<and> visited_nodes_set (es ! k) = visited_nodes_set (es ! i))"

definition relax_log_ok :: "event list \<Rightarrow> bool" where
  "relax_log_ok es =
     (\<forall>i < length es. \<forall>u v. visited_path (es ! i) = Some (u, v)
         \<longrightarrow> strictly_below es i v \<and> settled_before es i u)"

lemma strictly_below_append:
  "i < length es \<Longrightarrow> strictly_below (es @ es') i v = strictly_below es i v"
  by (simp add: strictly_below_def nth_append)

lemma settled_before_append:
  "i < length es \<Longrightarrow> settled_before (es @ es') i u = settled_before es i u"
  by (auto simp: settled_before_def nth_append)

lemma relax_log_ok_snoc:
  assumes "relax_log_ok es"
    and "\<And>u v. visited_path e = Some (u, v)
           \<Longrightarrow> strictly_below (es @ [e]) (length es) v \<and> settled_before (es @ [e]) (length es) u"
  shows "relax_log_ok (es @ [e])"
  unfolding relax_log_ok_def
proof (intro allI impI)
  fix i u v
  assume i: "i < length (es @ [e])" and p: "visited_path ((es @ [e]) ! i) = Some (u, v)"
  show "strictly_below (es @ [e]) i v \<and> settled_before (es @ [e]) i u"
  proof (cases "i < length es")
    case True
    then show ?thesis
      using assms(1) p
      by (simp add: relax_log_ok_def strictly_below_append settled_before_append nth_append)
  next
    case False
    then have "i = length es" using i by simp
    then show ?thesis using assms(2) [of u v] p by simp
  qed
qed

text \<open>Every recorded snapshot is pointwise at or above the live table.\<close>

definition snap_above :: "tracer_state \<Rightarrow> event \<Rightarrow> bool" where
  "snap_above st e =
     (\<forall>x cur. D st x = Some cur \<longrightarrow> (\<exists>old. map_of (distances e) x = Some old \<and> cur \<le> old))"

definition inv_relax_log :: "tracer_state \<Rightarrow> bool" where
  "inv_relax_log st =
     ((\<forall>e \<in> set (animation_steps st). snap_above st e) \<and> relax_log_ok (animation_steps st))"

definition cur_settled :: "int \<Rightarrow> tracer_state \<Rightarrow> bool" where
  "cur_settled u st =
     (\<exists>k < length (animation_steps st). is_settlement (animation_steps st ! k)
         \<and> visited_node (animation_steps st ! k) = u
         \<and> visited_nodes_set (animation_steps st ! k) = visited_nodes st)"

lemma inv_relax_log_init: "inv_relax_log (init_state g s)"
  by (simp add: inv_relax_log_def relax_log_ok_def init_state_def)

lemma inv_relax_log_relax_edge:
  assumes "inv_relax_log a \<and> cur_settled u a" and "relax_edge u cd e a = Inr b"
  shows "inv_relax_log b \<and> cur_settled u b"
proof -
  obtain v w where e: "e = (v, w)" by (cases e)
  from assms(2) [unfolded e] show ?thesis
  proof (cases rule: relax_edge_cases)
    case skip
    then show ?thesis using assms(1) by simp
  next
    case (update old)
    let ?ev = "\<lparr> visited_node = u, visited_path = Some (u, v),
                 distances = AList.update v (Fin (cd + w)) (distances_live a),
                 visited_nodes_set = visited_nodes a \<rparr>"
    have Db: "D b = (D a)(v \<mapsto> Fin (cd + w))"
      by (simp add: update(4) update_conv')
    have steps: "animation_steps b = animation_steps a @ [?ev]"
      and vis: "visited_nodes b = visited_nodes a"
      by (simp_all add: update(4))
    have ab: "\<forall>e \<in> set (animation_steps a). snap_above a e"
      and ok: "relax_log_ok (animation_steps a)" and cs: "cur_settled u a"
      using assms(1) by (simp_all add: inv_relax_log_def)
    have 1: "snap_above b e'" if "e' \<in> set (animation_steps a)" for e'
      unfolding snap_above_def
    proof (intro allI impI)
      fix x cur assume x: "D b x = Some cur"
      show "\<exists>old. map_of (distances e') x = Some old \<and> cur \<le> old"
      proof (cases "x = v")
        case True
        then have cur: "cur = Fin (cd + w)" using x by (simp add: Db)
        from ab that update(2) obtain o' where "map_of (distances e') v = Some o'" "old \<le> o'"
          unfolding snap_above_def by blast
        then show ?thesis using update(3) cur True by auto
      next
        case False
        then have "D a x = Some cur" using x by (simp add: Db)
        with ab that show ?thesis unfolding snap_above_def by blast
      qed
    qed
    have 2: "snap_above b ?ev"
      by (simp add: snap_above_def update(4))
    have 3: "strictly_below (animation_steps a @ [?ev]) (length (animation_steps a)) v"
      unfolding strictly_below_def
    proof (intro allI impI)
      fix j assume j: "j < length (animation_steps a)"
      then have "snap_above a (animation_steps a ! j)" using ab by simp
      with update(2) obtain o' where "map_of (distances (animation_steps a ! j)) v = Some o'" "old \<le> o'"
        unfolding snap_above_def by blast
      then show "\<exists>x y. map_of (distances ((animation_steps a @ [?ev]) ! length (animation_steps a))) v = Some x
                 \<and> map_of (distances ((animation_steps a @ [?ev]) ! j)) v = Some y \<and> x < y"
        using j update(3) by (auto simp: nth_append update_conv')
    qed
    have 4: "settled_before (animation_steps a @ [?ev]) (length (animation_steps a)) u"
      using cs unfolding cur_settled_def settled_before_def
      by (auto simp: nth_append)
    have ok': "relax_log_ok (animation_steps b)"
      unfolding steps using ok
    proof (rule relax_log_ok_snoc)
      fix u' v' assume "visited_path ?ev = Some (u', v')"
      then have "u' = u" "v' = v" by simp_all
      with 3 4 show "strictly_below (animation_steps a @ [?ev]) (length (animation_steps a)) v'
          \<and> settled_before (animation_steps a @ [?ev]) (length (animation_steps a)) u'"
        by simp
    qed
    have cs': "cur_settled u b"
    proof -
      from cs obtain k where k: "k < length (animation_steps a)"
        "is_settlement (animation_steps a ! k)" "visited_node (animation_steps a ! k) = u"
        "visited_nodes_set (animation_steps a ! k) = visited_nodes a"
        by (auto simp: cur_settled_def)
      show ?thesis
        unfolding cur_settled_def steps vis
        using k by (intro exI [of _ k]) (simp add: nth_append)
    qed
    show ?thesis
      unfolding inv_relax_log_def using 1 2 ok' cs' by (auto simp: steps)
  qed
qed

lemma inv_relax_log_settle:
  assumes "inv_relax_log a"
  shows "inv_relax_log (settle u a) \<and> cur_settled u (settle u a)"
proof -
  have "relax_log_ok (animation_steps (settle u a))"
    using assms by (auto simp: inv_relax_log_def intro: relax_log_ok_snoc)
  moreover have "\<forall>e \<in> set (animation_steps (settle u a)). snap_above (settle u a) e"
    using assms by (auto simp: inv_relax_log_def snap_above_def)
  moreover have "cur_settled u (settle u a)"
    unfolding cur_settled_def
    by (intro exI [of _ "length (animation_steps a)"]) (simp add: is_settlement_def)
  ultimately show ?thesis by (simp add: inv_relax_log_def)
qed

lemma inv_relax_log_loop_body:
  assumes "inv_relax_log a" and "loop_body g a = Inr b"
  shows "inv_relax_log b"
  using assms(2)
proof (cases rule: loop_body_cases)
  case stale
  then show ?thesis using assms(1) by (simp add: inv_relax_log_def snap_above_def)
next
  case (settle es)
  let ?m = "min_list (priority_queue a)"
  let ?a' = "settle (snd ?m) (a\<lparr> priority_queue := remove1 ?m (priority_queue a) \<rparr>)"
  have "inv_relax_log (a\<lparr> priority_queue := remove1 ?m (priority_queue a) \<rparr>)"
    using assms(1) by (simp add: inv_relax_log_def snap_above_def)
  then have "inv_relax_log ?a' \<and> cur_settled (snd ?m) ?a'"
    by (rule inv_relax_log_settle)
  with settle(3) have "inv_relax_log b \<and> cur_settled (snd ?m) b"
    by (rule relax_edges_rule) (rule inv_relax_log_relax_edge)
  then show ?thesis by simp
qed

lemma log_chain_settlement_unique:
  assumes "log_chain V es" and "k < k'" and "k' < length es"
    and "is_settlement (es ! k)" and "is_settlement (es ! k')"
  shows "visited_node (es ! k) \<noteq> visited_node (es ! k')"
proof -
  have k: "k < length es" using assms(2,3) by simp
  have "visited_node (es ! k) \<in> visited_nodes_set (es ! k)"
    using log_chain_settlement_step [OF assms(1) k assms(4)] by auto
  moreover have "visited_nodes_set (take k' es ! k) \<subseteq> last_snapshot V (take k' es)"
    using log_chain_nth_subset_last [OF log_chain_take [OF assms(1)], of k k'] assms(2,3) by simp
  ultimately have "visited_node (es ! k) \<in> last_snapshot V (take k' es)"
    using assms(2) by auto
  moreover have "visited_node (es ! k') \<notin> last_snapshot V (take k' es)"
    using log_chain_settlement_step [OF assms(1,3,5)] by simp
  ultimately show ?thesis by auto
qed

text \<open>
  Claim C5. On every valid input the run returns a log in which every relaxation step,
  with edge \<open>(u, v)\<close>, has a distance snapshot that gives \<open>v\<close> a strictly smaller value
  than the snapshot of every earlier step, and has the visited-set snapshot of the
  settlement step of \<open>u\<close>: that step comes earlier in the log and is the only
  settlement step of \<open>u\<close>.
\<close>

theorem relaxation_step_snapshots:
  assumes "valid_input g s"
  shows "\<exists>fd steps. dijkstra_with_steps g s = Inr (fd, steps)
     \<and> (\<forall>i u v. i < length steps \<and> visited_path (steps ! i) = Some (u, v)
          \<longrightarrow> (\<forall>j < i. \<exists>a b. map_of (distances (steps ! i)) v = Some a
                            \<and> map_of (distances (steps ! j)) v = Some b \<and> a < b)
            \<and> (\<exists>k < i. is_settlement (steps ! k) \<and> visited_node (steps ! k) = u
                   \<and> visited_nodes_set (steps ! k) = visited_nodes_set (steps ! i)
                   \<and> (\<forall>k' < length steps. is_settlement (steps ! k') \<and> visited_node (steps ! k') = u
                          \<longrightarrow> k' = k)))"
proof -
  obtain st where st: "dijkstra_loop g (init_state g s) = Inr st"
    using valid_input_returns [OF assms] by auto
  let ?steps = "animation_steps st"
  have "inv_log st \<and> priority_queue st = []"
    using st inv_log_init by (rule dijkstra_loop_rule) (rule inv_log_loop_body)
  then have chain: "log_chain {} ?steps" by (simp add: inv_log_def)
  have "inv_relax_log st \<and> priority_queue st = []"
    using st inv_relax_log_init by (rule dijkstra_loop_rule) (rule inv_relax_log_loop_body)
  then have ok: "relax_log_ok ?steps" by (simp add: inv_relax_log_def)
  have main: "(\<forall>j < i. \<exists>a b. map_of (distances (?steps ! i)) v = Some a
                            \<and> map_of (distances (?steps ! j)) v = Some b \<and> a < b)
            \<and> (\<exists>k < i. is_settlement (?steps ! k) \<and> visited_node (?steps ! k) = u
                   \<and> visited_nodes_set (?steps ! k) = visited_nodes_set (?steps ! i)
                   \<and> (\<forall>k' < length ?steps. is_settlement (?steps ! k') \<and> visited_node (?steps ! k') = u
                          \<longrightarrow> k' = k))"
    if h: "i < length ?steps \<and> visited_path (?steps ! i) = Some (u, v)" for i u v
  proof -
    from ok h have sb: "strictly_below ?steps i v" and se: "settled_before ?steps i u"
      by (simp_all add: relax_log_ok_def)
    from se obtain k where k: "k < i" "is_settlement (?steps ! k)" "visited_node (?steps ! k) = u"
      "visited_nodes_set (?steps ! k) = visited_nodes_set (?steps ! i)"
      by (auto simp: settled_before_def)
    have "k' = k" if k': "k' < length ?steps" "is_settlement (?steps ! k')"
      "visited_node (?steps ! k') = u" for k'
    proof (rule ccontr)
      assume "k' \<noteq> k"
      then consider "k' < k" | "k < k'" by linarith
      then show False
      proof cases
        case 1
        from log_chain_settlement_unique [OF chain 1 _ k'(2) k(2)] k(1,3) h k'(3)
        show False by simp
      next
        case 2
        from log_chain_settlement_unique [OF chain 2 k'(1) k(2) k'(2)] k(3) k'(3)
        show False by simp
      qed
    qed
    with k sb show ?thesis unfolding strictly_below_def by blast
  qed
  have "dijkstra_with_steps g s = Inr (distances_live st, ?steps)"
    using st by (simp add: dijkstra_with_steps_def)
  with main show ?thesis by blast
qed

text \<open>
  In the run on the spec's scenario graph, the seventh step relaxes the edge from 1 to 3.
\<close>

theorem relaxation_step_snapshots_witness:
  "valid_input scenario_graph 0
   \<and> (\<exists>fd steps. dijkstra_with_steps scenario_graph 0 = Inr (fd, steps)
         \<and> 6 < length steps \<and> visited_path (steps ! 6) = Some (1, 3)
         \<and> (\<forall>j < 6. \<exists>a b. map_of (distances (steps ! 6)) 3 = Some a
                            \<and> map_of (distances (steps ! j)) 3 = Some b \<and> a < b)
         \<and> (\<exists>k < 6. is_settlement (steps ! k) \<and> visited_node (steps ! k) = 1
                   \<and> visited_nodes_set (steps ! k) = visited_nodes_set (steps ! 6)))"
proof -
  from relaxation_step_snapshots [OF valid_scenario] obtain fd steps
    where r: "dijkstra_with_steps scenario_graph 0 = Inr (fd, steps)"
      and c: "\<And>i u v. i < length steps \<and> visited_path (steps ! i) = Some (u, v)
          \<Longrightarrow> (\<forall>j < i. \<exists>a b. map_of (distances (steps ! i)) v = Some a
                            \<and> map_of (distances (steps ! j)) v = Some b \<and> a < b)
            \<and> (\<exists>k < i. is_settlement (steps ! k) \<and> visited_node (steps ! k) = u
                   \<and> visited_nodes_set (steps ! k) = visited_nodes_set (steps ! i)
                   \<and> (\<forall>k' < length steps. is_settlement (steps ! k') \<and> visited_node (steps ! k') = u
                          \<longrightarrow> k' = k))"
    by blast
  have h: "6 < length steps \<and> visited_path (steps ! 6) = Some (1, 3)"
    using r unfolding scenario_run by auto
  from c [OF h] h r valid_scenario show ?thesis by blast
qed

section \<open>Determinism\<close>

text \<open>
  Two states that differ only in how the entries of the frontier are arranged in its
  list.
\<close>

definition same_but_frontier :: "tracer_state \<Rightarrow> tracer_state \<Rightarrow> bool" where
  "same_but_frontier a a' =
     (distances_live a' = distances_live a \<and> visited_nodes a' = visited_nodes a
      \<and> animation_steps a' = animation_steps a
      \<and> mset (priority_queue a') = mset (priority_queue a))"

lemma min_list_mset:
  fixes xs ys :: "'a::linorder list"
  assumes "mset xs = mset ys"
  shows "min_list xs = min_list ys"
proof (cases "xs = []")
  case True
  then show ?thesis using assms by simp
next
  case False
  moreover have "ys \<noteq> []" using False assms by auto
  moreover have "set xs = set ys" using assms by (rule mset_eq_setD)
  ultimately show ?thesis by (simp add: min_list_Min)
qed

lemma rel_sum_cases:
  assumes "rel_sum R S x y"
  obtains (Inl) e e' where "x = Inl e" "y = Inl e'" "R e e'"
  | (Inr) b b' where "x = Inr b" "y = Inr b'" "S b b'"
  using assms by (cases x; cases y) auto

lemma relax_edge_same:
  assumes "same_but_frontier a a'"
  shows "rel_sum (=) same_but_frontier (relax_edge u cd e a) (relax_edge u cd e a')"
  using assms
  by (auto simp: relax_edge_def same_but_frontier_def Let_def heappush_def split: option.splits)

lemma relax_edges_same:
  assumes "same_but_frontier a a'"
  shows "rel_sum (=) same_but_frontier (relax_edges u cd es a) (relax_edges u cd es a')"
  using assms
proof (induction es arbitrary: a a')
  case Nil
  then show ?case by simp
next
  case (Cons e es)
  from relax_edge_same [OF Cons.prems, of u cd e] show ?case
  proof (cases rule: rel_sum_cases)
    case (Inl x y)
    then show ?thesis by simp
  next
    case (Inr b b')
    then show ?thesis using Cons.IH [of b b'] by simp
  qed
qed

lemma loop_body_same:
  assumes "same_but_frontier a a'"
  shows "rel_sum (=) same_but_frontier (loop_body g a) (loop_body g a')"
proof -
  let ?m = "min_list (priority_queue a)"
  have m: "min_list (priority_queue a') = ?m"
    using assms by (auto simp: same_but_frontier_def intro: min_list_mset)
  have pop: "same_but_frontier (a\<lparr> priority_queue := remove1 ?m (priority_queue a) \<rparr>)
                (a'\<lparr> priority_queue := remove1 ?m (priority_queue a') \<rparr>)"
    using assms by (simp add: same_but_frontier_def)
  then have "same_but_frontier (settle (snd ?m) (a\<lparr> priority_queue := remove1 ?m (priority_queue a) \<rparr>))
                (settle (snd ?m) (a'\<lparr> priority_queue := remove1 ?m (priority_queue a') \<rparr>))"
    by (simp add: same_but_frontier_def)
  from relax_edges_same [OF this] pop assms show ?thesis
    by (auto simp: loop_body_def heappop_def Let_def m same_but_frontier_def split: option.splits)
qed

lemma dijkstra_loop_same:
  assumes "same_but_frontier a a'"
  shows "rel_sum (=) same_but_frontier (dijkstra_loop g a) (dijkstra_loop g a')"
  using assms
proof (induction g a arbitrary: a' rule: dijkstra_loop.induct)
  case (1 g a)
  show ?case
  proof (cases "priority_queue a = []")
    case True
    then have "priority_queue a' = []" using "1.prems" by (simp add: same_but_frontier_def)
    with True "1.prems" show ?thesis by (simp add: dijkstra_loop.simps)
  next
    case False
    then have ne: "priority_queue a' \<noteq> []" using "1.prems" by (auto simp: same_but_frontier_def)
    from loop_body_same [OF "1.prems", of g] show ?thesis
    proof (cases rule: rel_sum_cases)
      case (Inl x y)
      then show ?thesis using False ne by (simp add: dijkstra_loop.simps)
    next
      case (Inr b b')
      then have "rel_sum (=) same_but_frontier (dijkstra_loop g b) (dijkstra_loop g b')"
        using "1.IH" [OF False, of b b'] by simp
      then show ?thesis
        using False ne Inr(1,2) by (simp add: dijkstra_loop.simps [of g a] dijkstra_loop.simps [of g a'])
    qed
  qed
qed

lemma dijkstra_loop_empty:
  "dijkstra_loop g a = Inr b \<Longrightarrow> priority_queue b = []"
  using dijkstra_loop_rule [where P = "\<lambda>_. True", of g a b] by simp

lemma heappop_least:
  assumes "heap \<noteq> []" and "heappop heap = ((d, v), rest)"
  shows "(d, v) \<in> set heap \<and> rest = remove1 (d, v) heap
         \<and> (\<forall>item \<in> set heap. d < fst item \<or> (d = fst item \<and> v \<le> snd item))"
proof -
  have m: "min_list heap = (d, v)" and r: "rest = remove1 (d, v) heap"
    using assms(2) by (auto simp: heappop_def Let_def)
  have "d < fst item \<or> (d = fst item \<and> v \<le> snd item)" if "item \<in> set heap" for item
    using min_list_le [OF that] unfolding m by (cases item) (auto simp: less_eq_prod_def)
  then show ?thesis using min_list_in [OF assms(1)] m r by auto
qed

text \<open>
  Claim C8. The result of a run is a function of the graph and the start vertex, and
  beyond that it does not depend on how the frontier arranges its entries: from two
  states that differ only in the order of the frontier's list the loop gives the same
  result, table and steps in the same order. The entry popped is the least in the
  order of tuples: no entry has a smaller distance, and among the entries of that
  distance none has a smaller vertex identifier.
\<close>

theorem trace_deterministic:
  "(same_but_frontier a a' \<longrightarrow> dijkstra_loop g a = dijkstra_loop g a')
   \<and> (priority_queue a \<noteq> [] \<and> heappop (priority_queue a) = ((d, v), rest)
        \<longrightarrow> (d, v) \<in> set (priority_queue a)
            \<and> (\<forall>item \<in> set (priority_queue a). d < fst item \<or> (d = fst item \<and> v \<le> snd item)))"
proof (intro conjI impI)
  assume s: "same_but_frontier a a'"
  from dijkstra_loop_same [OF s, of g] show "dijkstra_loop g a = dijkstra_loop g a'"
  proof (cases rule: rel_sum_cases)
    case (Inl x y)
    then show ?thesis by simp
  next
    case (Inr b b')
    have "priority_queue b = []" "priority_queue b' = []"
      using Inr(1,2) by (auto dest: dijkstra_loop_empty)
    then have "b = b'" using Inr(3) by (simp add: same_but_frontier_def)
    then show ?thesis using Inr by simp
  qed
next
  assume "priority_queue a \<noteq> [] \<and> heappop (priority_queue a) = ((d, v), rest)"
  then show "(d, v) \<in> set (priority_queue a)"
    and "\<forall>item \<in> set (priority_queue a). d < fst item \<or> (d = fst item \<and> v \<le> snd item)"
    using heappop_least [of "priority_queue a" d v rest] by simp_all
qed

text \<open>
  Two frontiers holding the entries \<open>(5, 2)\<close> and \<open>(5, 1)\<close> in either order: the entry
  for vertex 1 is popped first, and the loop gives the same result from both.
\<close>

theorem trace_deterministic_witness:
  "same_but_frontier
      \<lparr> distances_live = [(0, Fin 0), (1, Fin 5), (2, Fin 5)], priority_queue = [(5, 2), (5, 1)],
        visited_nodes = {0}, animation_steps = [] \<rparr>
      \<lparr> distances_live = [(0, Fin 0), (1, Fin 5), (2, Fin 5)], priority_queue = [(5, 1), (5, 2)],
        visited_nodes = {0}, animation_steps = [] \<rparr>
   \<and> heappop [(5, 2), (5, 1)] = ((5, 1), [(5, 2)])
   \<and> dijkstra_loop [(0, [(1, 5), (2, 5)]), (1, []), (2, [])]
        \<lparr> distances_live = [(0, Fin 0), (1, Fin 5), (2, Fin 5)], priority_queue = [(5, 2), (5, 1)],
          visited_nodes = {0}, animation_steps = [] \<rparr>
     = dijkstra_loop [(0, [(1, 5), (2, 5)]), (1, []), (2, [])]
        \<lparr> distances_live = [(0, Fin 0), (1, Fin 5), (2, Fin 5)], priority_queue = [(5, 1), (5, 2)],
          visited_nodes = {0}, animation_steps = [] \<rparr>"
proof -
  have p: "heappop [(5, 2), (5, 1)] = ((5, 1), [(5 :: int, 2 :: int)])"
    by (simp add: heappop_def less_eq_prod_def min_def)
  have s: "same_but_frontier
      \<lparr> distances_live = [(0, Fin 0), (1, Fin 5), (2, Fin 5)], priority_queue = [(5, 2), (5, 1)],
        visited_nodes = {0}, animation_steps = [] \<rparr>
      \<lparr> distances_live = [(0, Fin 0), (1, Fin 5), (2, Fin 5)], priority_queue = [(5, 1), (5, 2)],
        visited_nodes = {0}, animation_steps = [] \<rparr>"
    by (simp add: same_but_frontier_def)
  from trace_deterministic [of
      "\<lparr> distances_live = [(0, Fin 0), (1, Fin 5), (2, Fin 5)], priority_queue = [(5, 2), (5, 1)],
         visited_nodes = {0}, animation_steps = [] \<rparr>"
      "\<lparr> distances_live = [(0, Fin 0), (1, Fin 5), (2, Fin 5)], priority_queue = [(5, 1), (5, 2)],
         visited_nodes = {0}, animation_steps = [] \<rparr>"
      "[(0, [(1, 5), (2, 5)]), (1, []), (2, [])]" 5 1 "[(5, 2)]"] p s
  show ?thesis by simp
qed

section \<open>The summary table\<close>

lemma draw_neighbors_no_table:
  "draw_neighbors pos path u es = Inr cmds \<Longrightarrow> Table t \<notin> set cmds"
  by (induction es arbitrary: cmds) (auto simp: Let_def split: option.splits sum.splits)

lemma draw_edges_no_table:
  "draw_edges pos path g = Inr cmds \<Longrightarrow> Table t \<notin> set cmds"
proof (induction g arbitrary: cmds)
  case Nil
  then show ?case by simp
next
  case (Cons entry g)
  obtain u neighbors where entry: "entry = (u, neighbors)" by (cases entry)
  from Cons.prems obtain c1 c2 where c: "draw_neighbors pos path u neighbors = Inr c1"
    "draw_edges pos path g = Inr c2" "cmds = c1 @ c2"
    by (auto simp: entry split: sum.splits)
  from draw_neighbors_no_table [OF c(1)] Cons.IH [OF c(2)] c(3) show ?case by simp
qed

lemma draw_nodes_no_table:
  "draw_nodes pos ev ns = Inr cmds \<Longrightarrow> Table t \<notin> set cmds"
  by (induction ns arbitrary: cmds) (auto simp: Let_def split: option.splits sum.splits)

lemma draw_graph_table:
  assumes "draw_graph g pos fd ev final = Inr frame"
  shows "Table t \<in> set frame \<longleftrightarrow> final \<and> t = table_data fd"
  using assms
  by (auto simp: draw_graph_def split: sum.splits if_splits
      dest: draw_edges_no_table draw_nodes_no_table)

lemma sorted_map_fst:
  fixes xs :: "(int \<times> dist) list"
  shows "sorted xs \<Longrightarrow> sorted (map fst xs)"
  unfolding sorted_map
  by (rule sorted_wrt_mono_rel [of xs "(\<le>)"]) (auto simp: less_eq_prod_def)

lemma table_data_sorted: "sorted (map fst (table_data fd))"
proof -
  have "map fst (table_data fd) = map fst (sort fd)"
    by (simp add: table_data_def case_prod_unfold)
  then show ?thesis by (simp add: sorted_map_fst)
qed

lemma table_data_rows:
  "set (table_data fd)
     = (\<lambda>(vertex, distance). (vertex, case distance of Fin d \<Rightarrow> str_int d | Infinity \<Rightarrow> ''infinity''))
         ` set fd"
proof -
  have "(if distance \<noteq> Infinity then str_dist distance else ''infinity'')
          = (case distance of Fin d \<Rightarrow> str_int d | Infinity \<Rightarrow> ''infinity'')" for distance
    by (cases distance) simp_all
  then show ?thesis by (simp add: table_data_def)
qed

text \<open>
  Claim C9. Whenever \<^verbatim>\<open>update\<close> draws a frame, the frame holds a table exactly when its
  index is the length of the log minus one. The table has one row for each item of the
  final distance table, pairing the vertex with the decimal form of its distance or,
  for the infinite sentinel, with the marker \<^verbatim>\<open>infinity\<close>; the rows are in ascending
  order of the vertex.
\<close>

theorem summary_table_last_frame:
  assumes "update g pos final_distances steps frame_index = Inr (Some frame)"
  shows "((\<exists>t. Table t \<in> set frame) \<longleftrightarrow> frame_index = int (length steps) - 1)
       \<and> (\<forall>t. Table t \<in> set frame \<longrightarrow>
             sorted (map fst t)
             \<and> length t = length final_distances
             \<and> set t = (\<lambda>(vertex, distance).
                          (vertex, case distance of Fin d \<Rightarrow> str_int d | Infinity \<Rightarrow> ''infinity''))
                        ` set final_distances)"
proof -
  from assms obtain ev
    where d: "draw_graph g pos final_distances ev (frame_index = int (length steps) - 1) = Inr frame"
    by (auto simp: update_def Let_def split: if_splits sum.splits)
  have t: "Table t \<in> set frame \<longleftrightarrow> frame_index = int (length steps) - 1 \<and> t = table_data final_distances"
    for t
    using draw_graph_table [OF d] .
  have "length (table_data final_distances) = length final_distances"
    by (simp add: table_data_def)
  with t table_data_sorted [of final_distances] table_data_rows [of final_distances]
  show ?thesis by auto
qed

definition scenario_steps :: "event list" where
  "scenario_steps =
     [\<lparr> visited_node = 0, visited_path = None,
         distances = [(0, Fin 0), (1, Infinity), (2, Infinity), (3, Infinity)],
         visited_nodes_set = {0} \<rparr>,
      \<lparr> visited_node = 0, visited_path = Some (0, 1),
         distances = [(0, Fin 0), (1, Fin 6), (2, Infinity), (3, Infinity)],
         visited_nodes_set = {0} \<rparr>,
      \<lparr> visited_node = 0, visited_path = Some (0, 2),
         distances = [(0, Fin 0), (1, Fin 6), (2, Fin 1), (3, Infinity)],
         visited_nodes_set = {0} \<rparr>,
      \<lparr> visited_node = 2, visited_path = None,
         distances = [(0, Fin 0), (1, Fin 6), (2, Fin 1), (3, Infinity)],
         visited_nodes_set = {0, 2} \<rparr>,
      \<lparr> visited_node = 2, visited_path = Some (2, 3),
         distances = [(0, Fin 0), (1, Fin 6), (2, Fin 1), (3, Fin 11)],
         visited_nodes_set = {0, 2} \<rparr>,
      \<lparr> visited_node = 1, visited_path = None,
         distances = [(0, Fin 0), (1, Fin 6), (2, Fin 1), (3, Fin 11)],
         visited_nodes_set = {0, 1, 2} \<rparr>,
      \<lparr> visited_node = 1, visited_path = Some (1, 3),
         distances = [(0, Fin 0), (1, Fin 6), (2, Fin 1), (3, Fin 7)],
         visited_nodes_set = {0, 1, 2} \<rparr>,
      \<lparr> visited_node = 3, visited_path = None,
         distances = [(0, Fin 0), (1, Fin 6), (2, Fin 1), (3, Fin 7)],
         visited_nodes_set = {0, 1, 2, 3} \<rparr>]"

lemma scenario_steps_run:
  "dijkstra_with_steps scenario_graph 0
     = Inr ([(0, Fin 0), (1, Fin 6), (2, Fin 1), (3, Fin 7)], scenario_steps)"
  by (simp add: scenario_run scenario_steps_def)

text \<open>
  The final-frame scenario of the spec: the log of the run on the scenario graph has
  eight steps; the frame of index 7 holds the table with the rows
  \<open>(0, "0"), (1, "6"), (2, "1"), (3, "7")\<close>, and the frame of index 6 holds none. The
  positions are four arbitrary values.
\<close>

theorem summary_table_last_frame_witness:
  "(\<exists>frame. update scenario_graph [(0, ''a''), (1, ''b''), (2, ''c''), (3, ''d'')]
              [(0, Fin 0), (1, Fin 6), (2, Fin 1), (3, Fin 7)] scenario_steps 7 = Inr (Some frame)
            \<and> set frame \<inter> range Table = {Table [(0, ''0''), (1, ''6''), (2, ''1''), (3, ''7'')]})"
proof -
  let ?pos = "[(0 :: int, ''a''), (1, ''b''), (2, ''c''), (3, ''d'')]"
  let ?fd = "[(0, Fin 0), (1, Fin 6), (2, Fin 1), (3, Fin 7)]"
  let ?frame = "[Plot ''a'' ''b'' ''gray'' (3 / 2), Text_mid ''a'' ''b'' ''6'',
        Plot ''a'' ''c'' ''gray'' (3 / 2), Text_mid ''a'' ''c'' ''1'',
        Plot ''b'' ''a'' ''gray'' (3 / 2), Text_mid ''b'' ''a'' ''6'',
        Plot ''b'' ''d'' ''gray'' (3 / 2), Text_mid ''b'' ''d'' ''1'',
        Plot ''c'' ''a'' ''gray'' (3 / 2), Text_mid ''c'' ''a'' ''1'',
        Plot ''c'' ''d'' ''gray'' (3 / 2), Text_mid ''c'' ''d'' ''10'',
        Circle ''a'' ''#4caf50'' ''blue'', Text_at ''a'' ''0'', Text_above ''a'' ''d=0'',
        Circle ''b'' ''#4caf50'' ''blue'', Text_at ''b'' ''1'', Text_above ''b'' ''d=6'',
        Circle ''c'' ''#4caf50'' ''blue'', Text_at ''c'' ''2'', Text_above ''c'' ''d=1'',
        Circle ''d'' ''#4caf50'' ''red'', Text_at ''d'' ''3'', Text_above ''d'' ''d=7'',
        Table [(0, ''0''), (1, ''6''), (2, ''1''), (3, ''7'')]]"
  have u: "update scenario_graph ?pos ?fd scenario_steps 7 = Inr (Some ?frame)"
    by code_simp
  have "Table [(0, ''0''), (1, ''6''), (2, ''1''), (3, ''7'')] \<in> set ?frame" by simp
  moreover have "\<forall>t. Table t \<in> set ?frame \<longrightarrow> t = [(0, ''0''), (1, ''6''), (2, ''1''), (3, ''7'')]"
    by simp
  ultimately have "set ?frame \<inter> range Table = {Table [(0, ''0''), (1, ''6''), (2, ''1''), (3, ''7'')]}"
    by blast
  with u summary_table_last_frame [OF u] show ?thesis by blast
qed

subsection \<open>The player draws every step of a run\<close>

lemma draw_neighbors_total:
  assumes "u \<in> fst ` set pos" and "\<forall>e \<in> set es. fst e \<in> fst ` set pos"
  shows "\<exists>cmds. draw_neighbors pos path u es = Inr cmds"
  using assms(2)
proof (induction es)
  case Nil
  then show ?case by simp
next
  case (Cons e es)
  obtain v w where e: "e = (v, w)" by (cases e)
  obtain p1 where p1: "map_of pos u = Some p1"
    using assms(1) by (metis domD dom_map_of_conv_image_fst)
  have "v \<in> fst ` set pos" using Cons.prems e by simp
  then obtain p2 where p2: "map_of pos v = Some p2"
    by (metis domD dom_map_of_conv_image_fst)
  from Cons obtain cmds where "draw_neighbors pos path u es = Inr cmds" by auto
  then show ?case by (simp add: e p1 p2 Let_def)
qed

lemma draw_edges_total:
  assumes "\<forall>entry \<in> set g. fst entry \<in> fst ` set pos
             \<and> (\<forall>e \<in> set (snd entry). fst e \<in> fst ` set pos)"
  shows "\<exists>cmds. draw_edges pos path g = Inr cmds"
  using assms
proof (induction g)
  case Nil
  then show ?case by simp
next
  case (Cons entry g)
  obtain u es where entry: "entry = (u, es)" by (cases entry)
  have "\<exists>c1. draw_neighbors pos path u es = Inr c1"
    using Cons.prems entry by (intro draw_neighbors_total) simp_all
  moreover have "\<exists>c2. draw_edges pos path g = Inr c2"
    using Cons by simp
  ultimately show ?case by (auto simp: entry)
qed

lemma draw_nodes_total:
  assumes "set ns \<subseteq> fst ` set pos" and "set ns \<subseteq> fst ` set (distances ev)"
  shows "\<exists>cmds. draw_nodes pos ev ns = Inr cmds"
  using assms
proof (induction ns)
  case Nil
  then show ?case by simp
next
  case (Cons n ns)
  obtain p where p: "map_of pos n = Some p"
    using Cons.prems(1) by (metis domD dom_map_of_conv_image_fst list.set_intros(1) subsetD)
  obtain d where d: "map_of (distances ev) n = Some d"
    using Cons.prems(2) by (metis domD dom_map_of_conv_image_fst list.set_intros(1) subsetD)
  from Cons obtain cmds where "draw_nodes pos ev ns = Inr cmds" by auto
  then show ?case by (simp add: p d Let_def)
qed

lemma run_snapshots_have_keys:
  assumes "valid_input g s" and "dijkstra_with_steps g s = Inr (fd, steps)" and "ev \<in> set steps"
  shows "fst ` set g \<subseteq> fst ` set (distances ev)"
proof -
  from assms(2) obtain st where st: "dijkstra_loop g (init_state g s) = Inr st"
    and steps: "steps = animation_steps st"
    by (auto simp: dijkstra_with_steps_Inr)
  have "inv_relax_log st \<and> priority_queue st = []"
    using st inv_relax_log_init by (rule dijkstra_loop_rule) (rule inv_relax_log_loop_body)
  then have above: "snap_above st ev" using assms(3) steps by (simp add: inv_relax_log_def)
  have "inv_dom g st \<and> priority_queue st = []"
    using st inv_dom_init [of s g] assms(1)
    by (intro dijkstra_loop_rule [where P = "inv_dom g"])
       (auto simp: valid_input_def intro: inv_dom_loop_body)
  then have dom: "dom (D st) = fst ` set g" by (simp add: inv_dom_def)
  show ?thesis
  proof
    fix x assume "x \<in> fst ` set g"
    then obtain cur where "D st x = Some cur" using dom by auto
    with above obtain old where "map_of (distances ev) x = Some old"
      unfolding snap_above_def by blast
    then show "x \<in> fst ` set (distances ev)"
      by (metis domI dom_map_of_conv_image_fst)
  qed
qed

text \<open>
  With a position for every vertex of the graph, every index from 0 up to the length of
  the log of a run gives a frame.
\<close>

lemma player_draws_run:
  assumes "valid_input g s" and "dijkstra_with_steps g s = Inr (fd, steps)"
    and "fst ` set g \<subseteq> fst ` set pos" and "0 \<le> i" and "i < int (length steps)"
  shows "\<exists>frame. update g pos fd steps i = Inr (Some frame)"
proof -
  have idx: "py_index steps i = Inr (steps ! nat i)"
    using assms(4,5) by (simp add: py_index_def Let_def)
  have ev: "steps ! nat i \<in> set steps" using assms(4,5) by simp
  have closed: "closed_graph g" using assms(1) by (simp add: valid_input_def)
  have "\<forall>entry \<in> set g. fst entry \<in> fst ` set pos
             \<and> (\<forall>e \<in> set (snd entry). fst e \<in> fst ` set pos)"
    using closed assms(3) unfolding closed_graph_def by blast
  then obtain c1 where c1: "draw_edges pos (visited_path (steps ! nat i)) g = Inr c1"
    using draw_edges_total by blast
  have "\<exists>c2. draw_nodes pos (steps ! nat i) (map fst g) = Inr c2"
    using assms(3) run_snapshots_have_keys [OF assms(1,2) ev]
    by (intro draw_nodes_total) simp_all
  then obtain c2 where c2: "draw_nodes pos (steps ! nat i) (map fst g) = Inr c2" by auto
  show ?thesis
    using assms(5) idx c1 c2 by (simp add: update_def draw_graph_def Let_def)
qed

section \<open>Snapshots are copies\<close>

text \<open>
  Reading a step through a store gives the step of the first rendering: the contents
  of the two objects it refers to. Reading a whole state gives a state of the first
  rendering.
\<close>

definition deref_event :: "obj list \<Rightarrow> ref_event \<Rightarrow> event" where
  "deref_event h ev =
     \<lparr> visited_node = ev_node ev,
       visited_path = ev_path ev,
       distances = (case read_dict h (ev_distances ev) of Inr d \<Rightarrow> d | Inl e \<Rightarrow> []),
       visited_nodes_set = (case read_set h (ev_visited ev) of Inr V \<Rightarrow> V | Inl e \<Rightarrow> {}) \<rparr>"

definition abs_state :: "ref_state \<Rightarrow> tracer_state" where
  "abs_state rs =
     \<lparr> distances_live = table_of rs,
       priority_queue = frontier rs,
       visited_nodes = visited_of rs,
       animation_steps = map (deref_event (store rs)) (steps_refs rs) \<rparr>"

text \<open>
  A well-formed state: the two live addresses hold a table and a set, and the addresses
  recorded in the steps are allocated and are not the live ones.
\<close>

definition wf_refs :: "ref_state \<Rightarrow> bool" where
  "wf_refs rs =
     ((\<exists>d. read_dict (store rs) (distances_at rs) = Inr d)
      \<and> (\<exists>V. read_set (store rs) (visited_at rs) = Inr V)
      \<and> (\<forall>ev \<in> set (steps_refs rs).
            ev_distances ev < length (store rs) \<and> ev_visited ev < length (store rs)
            \<and> ev_distances ev \<notin> {distances_at rs, visited_at rs}
            \<and> ev_visited ev \<notin> {distances_at rs, visited_at rs}))"

text \<open>
  \<open>keeps rs rs'\<close>: from \<open>rs\<close> to \<open>rs'\<close> the live addresses stay, the list of steps is only
  extended, and every step of \<open>rs\<close> reads the same in the store of \<open>rs'\<close> as in that of \<open>rs\<close>.
\<close>

definition keeps :: "ref_state \<Rightarrow> ref_state \<Rightarrow> bool" where
  "keeps rs rs' =
     (distances_at rs' = distances_at rs \<and> visited_at rs' = visited_at rs
      \<and> (\<exists>new. steps_refs rs' = steps_refs rs @ new)
      \<and> (\<forall>ev \<in> set (steps_refs rs). deref_event (store rs') ev = deref_event (store rs) ev))"

lemma keeps_refl: "keeps rs rs"
  by (simp add: keeps_def)

lemma keeps_trans: "keeps a b \<Longrightarrow> keeps b c \<Longrightarrow> keeps a c"
  unfolding keeps_def by auto

lemma keeps_frontier [simp]: "keeps rs (rs'\<lparr> frontier := f \<rparr>) = keeps rs rs'"
  by (simp add: keeps_def)

lemma deref_event_frame:
  assumes "ev_distances ev < length h" and "ev_visited ev < length h"
    and "ev_distances ev \<noteq> a" and "ev_visited ev \<noteq> a"
  shows "deref_event (h[a := x] @ h') ev = deref_event h ev"
  using assms
  by (simp add: deref_event_def read_dict_append_old read_set_append_old
      read_dict_update_other read_set_update_other)

lemma abs_state_simps [simp]:
  "distances_live (abs_state rs) = table_of rs"
  "priority_queue (abs_state rs) = frontier rs"
  "visited_nodes (abs_state rs) = visited_of rs"
  "animation_steps (abs_state rs) = map (deref_event (store rs)) (steps_refs rs)"
  by (simp_all add: abs_state_def)

lemma abs_state_frontier [simp]:
  "abs_state (rs\<lparr> frontier := f \<rparr>) = (abs_state rs)\<lparr> priority_queue := f \<rparr>"
  by (simp add: abs_state_def table_of_def visited_of_def)

lemma wf_refs_frontier [simp]: "wf_refs (rs\<lparr> frontier := f \<rparr>) = wf_refs rs"
  by (simp add: wf_refs_def)

text \<open>
  The effect of a mutation of a live object followed by a snapshot: the new state is
  well formed, keeps the old steps, and reads as the state with the new step recorded
  by value.
\<close>

lemma record_step:
  assumes wf: "wf_refs rs"
    and a: "a = distances_at rs \<or> a = visited_at rs"
    and rd: "read_dict ((store rs)[a := x]) (distances_at rs) = Inr d"
    and rv: "read_set ((store rs)[a := x]) (visited_at rs) = Inr V"
    and rs': "rs' = rs\<lparr> store := (store rs)[a := x] @ [DictObj d, SetObj V],
                        frontier := f,
                        steps_refs := steps_refs rs @
                          [\<lparr> ev_node = u, ev_path = p, ev_distances = length (store rs),
                             ev_visited = Suc (length (store rs)) \<rparr>] \<rparr>"
  shows "wf_refs rs'" and "keeps rs rs'"
    and "abs_state rs' =
           \<lparr> distances_live = d, priority_queue = f, visited_nodes = V,
             animation_steps = animation_steps (abs_state rs) @
               [\<lparr> visited_node = u, visited_path = p, distances = d, visited_nodes_set = V \<rparr>] \<rparr>"
proof -
  let ?h = "(store rs)[a := x]"
  let ?h' = "?h @ [DictObj d, SetObj V]"
  have dl: "distances_at rs < length (store rs)" and vl: "visited_at rs < length (store rs)"
    using rd rv by (simp_all add: read_dict_Inr read_set_Inr)
  have rd': "read_dict ?h' (distances_at rs) = Inr d"
    using rd dl by (simp add: read_dict_append_old)
  have rv': "read_set ?h' (visited_at rs) = Inr V"
    using rv vl by (simp add: read_set_append_old)
  have old: "deref_event ?h' ev = deref_event (store rs) ev" if "ev \<in> set (steps_refs rs)" for ev
  proof -
    have "ev_distances ev < length (store rs)" "ev_visited ev < length (store rs)"
      "ev_distances ev \<noteq> a" "ev_visited ev \<noteq> a"
      using wf that a unfolding wf_refs_def by auto
    then show ?thesis by (rule deref_event_frame)
  qed
  show "wf_refs rs'"
    using wf rd' rv' dl vl unfolding wf_refs_def rs' by auto
  show "keeps rs rs'"
    using old unfolding keeps_def rs' by simp
  have new: "deref_event ?h' \<lparr> ev_node = u, ev_path = p, ev_distances = length (store rs),
                               ev_visited = Suc (length (store rs)) \<rparr>
               = \<lparr> visited_node = u, visited_path = p, distances = d, visited_nodes_set = V \<rparr>"
    by (simp add: deref_event_def read_dict_def read_set_def nth_append)
  show "abs_state rs' =
           \<lparr> distances_live = d, priority_queue = f, visited_nodes = V,
             animation_steps = animation_steps (abs_state rs) @
               [\<lparr> visited_node = u, visited_path = p, distances = d, visited_nodes_set = V \<rparr>] \<rparr>"
    using old new rd' rv' unfolding abs_state_def rs'
    by (simp add: table_of_def visited_of_def)
qed

lemma settle_ref_sim:
  assumes "wf_refs rs"
  shows "\<exists>rs'. settle_ref u rs = Inr rs' \<and> wf_refs rs' \<and> keeps rs rs'
               \<and> abs_state rs' = settle u (abs_state rs)"
proof -
  from assms obtain d V where d: "read_dict (store rs) (distances_at rs) = Inr d"
    and V: "read_set (store rs) (visited_at rs) = Inr V"
    by (auto simp: wf_refs_def)
  let ?rs' = "rs\<lparr> store := (store rs)[visited_at rs := SetObj (insert u V)]
                                  @ [DictObj d, SetObj (insert u V)],
                  frontier := frontier rs,
                  steps_refs := steps_refs rs @
                          [\<lparr> ev_node = u, ev_path = None,
                             ev_distances = length (store rs),
                             ev_visited = Suc (length (store rs)) \<rparr>] \<rparr>"
  have ne: "distances_at rs \<noteq> visited_at rs"
    using d V by (auto simp: read_dict_Inr read_set_Inr)
  have rd: "read_dict ((store rs)[visited_at rs := SetObj (insert u V)]) (distances_at rs) = Inr d"
    using d ne by (simp add: read_dict_update_other)
  have rv: "read_set ((store rs)[visited_at rs := SetObj (insert u V)]) (visited_at rs)
              = Inr (insert u V)"
    using V by (simp add: read_set_Inr)
  have s: "settle_ref u rs = Inr ?rs'"
    unfolding settle_ref_Inr using d V by (intro exI [of _ V] exI [of _ d]) simp
  have st: "settle u (abs_state rs)
              = \<lparr> distances_live = d, priority_queue = frontier rs, visited_nodes = insert u V,
                  animation_steps = animation_steps (abs_state rs) @
                    [\<lparr> visited_node = u, visited_path = None, distances = d,
                       visited_nodes_set = insert u V \<rparr>] \<rparr>"
    using d V by (simp add: settle_def Let_def abs_state_def table_of_def visited_of_def)
  have "abs_state ?rs' = settle u (abs_state rs)"
    unfolding st
    by (rule record_step(3) [OF assms _ rd rv refl, where f = "frontier rs" and u = u and p = None])
       simp
  with s record_step(1,2) [OF assms _ rd rv refl, where f = "frontier rs" and u = u and p = None]
  show ?thesis by blast
qed

lemma relax_edge_ref_sim:
  assumes "wf_refs rs"
  shows "rel_sum (=) (\<lambda>rs' st'. st' = abs_state rs' \<and> wf_refs rs' \<and> keeps rs rs')
           (relax_edge_ref u cd e rs) (relax_edge u cd e (abs_state rs))"
proof -
  obtain v w where e: "e = (v, w)" by (cases e)
  from assms obtain d V where d: "read_dict (store rs) (distances_at rs) = Inr d"
    and V: "read_set (store rs) (visited_at rs) = Inr V"
    by (auto simp: wf_refs_def)
  have tv: "table_of rs = d" "visited_of rs = V"
    using d V by (simp_all add: table_of_def visited_of_def)
  show ?thesis
  proof (cases "v \<in> V")
    case True
    then show ?thesis
      using assms V tv by (simp add: e relax_edge_ref_def relax_edge_def keeps_refl)
  next
    case False
    show ?thesis
    proof (cases "map_of d v")
      case None
      then show ?thesis
        using V d False tv by (simp add: e relax_edge_ref_def relax_edge_def)
    next
      case (Some old)
      show ?thesis
      proof (cases "Fin (cd + w) < old")
        case l: False
        then show ?thesis
          using assms V d False Some tv
          by (simp add: e relax_edge_ref_def relax_edge_def keeps_refl)
      next
        case l: True
        let ?d' = "AList.update v (Fin (cd + w)) d"
        let ?h = "(store rs)[distances_at rs := DictObj ?d']"
        let ?rs' = "rs\<lparr> store := ?h @ [DictObj ?d', SetObj V],
                 frontier := (cd + w, v) # frontier rs,
                 steps_refs := steps_refs rs @
                   [\<lparr> ev_node = u, ev_path = Some (u, v),
                      ev_distances = length (store rs),
                      ev_visited = Suc (length (store rs)) \<rparr>] \<rparr>"
        have ne: "visited_at rs \<noteq> distances_at rs"
          using d V by (auto simp: read_dict_Inr read_set_Inr)
        have rd: "read_dict ?h (distances_at rs) = Inr ?d'"
          using d by (simp add: read_dict_Inr)
        have rv: "read_set ?h (visited_at rs) = Inr V"
          using V ne by (simp add: read_set_update_other)
        have snap: "snapshot ?h (distances_at rs) (visited_at rs)
              = Inr (length (store rs), Suc (length (store rs)), ?h @ [DictObj ?d', SetObj V])"
          using rd rv by (simp add: snapshot_Inr)
        have r: "relax_edge_ref u cd e rs = Inr ?rs'"
          using V d False Some l snap by (simp add: e relax_edge_ref_def heappush_def Let_def)
        have v: "relax_edge u cd e (abs_state rs)
                   = Inr \<lparr> distances_live = ?d', priority_queue = (cd + w, v) # frontier rs,
                           visited_nodes = V,
                           animation_steps = animation_steps (abs_state rs) @
                             [\<lparr> visited_node = u, visited_path = Some (u, v), distances = ?d',
                                visited_nodes_set = V \<rparr>] \<rparr>"
          using False Some l tv by (simp add: e relax_edge_def heappush_def abs_state_def Let_def)
        from record_step [OF assms _ rd rv refl, where f = "(cd + w, v) # frontier rs" and u = u
            and p = "Some (u, v)"]
        show ?thesis unfolding r v by simp
      qed
    qed
  qed
qed

lemma rel_sum_weaken:
  assumes "rel_sum R S x y" and "\<And>a b. S a b \<Longrightarrow> S' a b"
  shows "rel_sum R S' x y"
  using assms by (cases x; cases y) auto

lemma relax_edges_ref_sim:
  assumes "wf_refs rs"
  shows "rel_sum (=) (\<lambda>rs' st'. st' = abs_state rs' \<and> wf_refs rs' \<and> keeps rs rs')
           (relax_edges_ref u cd es rs) (relax_edges u cd es (abs_state rs))"
  using assms
proof (induction es arbitrary: rs)
  case Nil
  then show ?case by (simp add: keeps_refl)
next
  case (Cons e es)
  from relax_edge_ref_sim [OF Cons.prems, of u cd e] show ?case
  proof (cases rule: rel_sum_cases)
    case (Inl x y)
    then show ?thesis by simp
  next
    case (Inr rs1 st1)
    from Cons.IH [of rs1] Inr(3)
    have "rel_sum (=) (\<lambda>rs' st'. st' = abs_state rs' \<and> wf_refs rs' \<and> keeps rs1 rs')
           (relax_edges_ref u cd es rs1) (relax_edges u cd es (abs_state rs1))"
      by simp
    then have "rel_sum (=) (\<lambda>rs' st'. st' = abs_state rs' \<and> wf_refs rs' \<and> keeps rs rs')
           (relax_edges_ref u cd es rs1) (relax_edges u cd es (abs_state rs1))"
      by (rule rel_sum_weaken) (use Inr(3) in \<open>auto intro: keeps_trans\<close>)
    then show ?thesis using Inr by simp
  qed
qed

lemma loop_body_ref_sim:
  assumes "wf_refs rs"
  shows "rel_sum (=) (\<lambda>rs' st'. st' = abs_state rs' \<and> wf_refs rs' \<and> keeps rs rs')
           (loop_body_ref g rs) (loop_body g (abs_state rs))"
proof -
  let ?m = "min_list (frontier rs)"
  let ?rs0 = "rs\<lparr> frontier := remove1 ?m (frontier rs) \<rparr>"
  from assms obtain V where V: "read_set (store rs) (visited_at rs) = Inr V"
    by (auto simp: wf_refs_def)
  have tv: "visited_of rs = V" using V by (simp add: visited_of_def)
  show ?thesis
  proof (cases "snd ?m \<in> V")
    case True
    then show ?thesis
      using assms V tv
      by (simp add: loop_body_ref_def loop_body_def heappop_def Let_def keeps_refl)
  next
    case False
    have wf0: "wf_refs ?rs0" using assms by simp
    from settle_ref_sim [OF wf0, of "snd ?m"] obtain rs1
      where s: "settle_ref (snd ?m) ?rs0 = Inr rs1" and wf1: "wf_refs rs1"
        and k1: "keeps rs rs1"
        and a1: "abs_state rs1 = settle (snd ?m) ((abs_state rs)\<lparr> priority_queue := remove1 ?m (frontier rs) \<rparr>)"
      by (auto simp: keeps_def)
    show ?thesis
    proof (cases "map_of g (snd ?m)")
      case None
      then show ?thesis
        using V tv False s
        by (simp add: loop_body_ref_def loop_body_def heappop_def Let_def)
    next
      case (Some es)
      have "rel_sum (=) (\<lambda>rs' st'. st' = abs_state rs' \<and> wf_refs rs' \<and> keeps rs1 rs')
           (relax_edges_ref (snd ?m) (fst ?m) es rs1) (relax_edges (snd ?m) (fst ?m) es (abs_state rs1))"
        using wf1 by (rule relax_edges_ref_sim)
      then have "rel_sum (=) (\<lambda>rs' st'. st' = abs_state rs' \<and> wf_refs rs' \<and> keeps rs rs')
           (relax_edges_ref (snd ?m) (fst ?m) es rs1) (relax_edges (snd ?m) (fst ?m) es (abs_state rs1))"
        by (rule rel_sum_weaken) (use k1 in \<open>auto intro: keeps_trans\<close>)
      then show ?thesis
        using V tv False s Some a1
        by (simp add: loop_body_ref_def loop_body_def heappop_def Let_def)
    qed
  qed
qed

lemma dijkstra_loop_ref_sim:
  assumes "wf_refs rs"
  shows "rel_sum (=) (\<lambda>rs' st'. st' = abs_state rs' \<and> wf_refs rs' \<and> keeps rs rs')
           (dijkstra_loop_ref g rs) (dijkstra_loop g (abs_state rs))"
  using assms
proof (induction g rs rule: dijkstra_loop_ref.induct)
  case (1 g rs)
  show ?case
  proof (cases "frontier rs = []")
    case True
    then show ?thesis
      using "1.prems" by (simp add: dijkstra_loop_ref.simps dijkstra_loop.simps keeps_refl)
  next
    case False
    from loop_body_ref_sim [OF "1.prems", of g] show ?thesis
    proof (cases rule: rel_sum_cases)
      case (Inl x y)
      then show ?thesis
        using False
        by (simp add: dijkstra_loop_ref.simps [of g rs] dijkstra_loop.simps [of g "abs_state rs"])
    next
      case (Inr rs1 st1)
      from "1.IH" [OF False Inr(1)] Inr(3)
      have "rel_sum (=) (\<lambda>rs' st'. st' = abs_state rs' \<and> wf_refs rs' \<and> keeps rs1 rs')
           (dijkstra_loop_ref g rs1) (dijkstra_loop g (abs_state rs1))"
        by simp
      then have "rel_sum (=) (\<lambda>rs' st'. st' = abs_state rs' \<and> wf_refs rs' \<and> keeps rs rs')
           (dijkstra_loop_ref g rs1) (dijkstra_loop g (abs_state rs1))"
        by (rule rel_sum_weaken) (use Inr(3) in \<open>auto intro: keeps_trans\<close>)
      then show ?thesis
        using False Inr
        by (simp add: dijkstra_loop_ref.simps [of g rs] dijkstra_loop.simps [of g "abs_state rs"])
    qed
  qed
qed

lemma wf_refs_init: "wf_refs (init_ref g s)"
  by (simp add: wf_refs_def init_ref_def read_dict_def read_set_def)

lemma abs_state_init: "abs_state (init_ref g s) = init_state g s"
  by (simp add: abs_state_def init_ref_def init_state_def table_of_def visited_of_def
      read_dict_def read_set_def)

lemma keeps_relD:
  assumes "rel_sum (=) (\<lambda>rs' st'. st' = abs_state rs' \<and> wf_refs rs' \<and> keeps rs rs') x y"
    and "x = Inr rs'"
  shows "keeps rs rs'"
  using assms by (cases rule: rel_sum_cases) auto

text \<open>
  Claim C7. From a well-formed state, whatever the tracer goes on to do (relax an
  edge, pass once through the loop body, run the loop to its end) and however it
  mutates the live table and the live visited set on the way, every step already in the
  log stays in the log and reads exactly as before. For a whole run on a valid input:
  the run over the store returns, and reading its steps through the final store gives
  the steps of the first rendering, which hold the values that the table and the
  visited set had when each step was appended.
\<close>

theorem snapshots_are_copies:
  "(wf_refs rs \<and> (relax_edge_ref u cd e rs = Inr rs' \<or> loop_body_ref g rs = Inr rs'
                    \<or> dijkstra_loop_ref g rs = Inr rs')
      \<longrightarrow> (\<forall>ev \<in> set (steps_refs rs).
             ev \<in> set (steps_refs rs') \<and> deref_event (store rs') ev = deref_event (store rs) ev))
   \<and> (valid_input g s
      \<longrightarrow> (\<exists>h d_at evs fd steps.
             dijkstra_with_steps_ref g s = Inr (h, d_at, evs)
             \<and> dijkstra_with_steps g s = Inr (fd, steps)
             \<and> read_dict h d_at = Inr fd
             \<and> map (deref_event h) evs = steps))"
proof (intro conjI impI)
  assume h: "wf_refs rs \<and> (relax_edge_ref u cd e rs = Inr rs' \<or> loop_body_ref g rs = Inr rs'
                    \<or> dijkstra_loop_ref g rs = Inr rs')"
  then have wf: "wf_refs rs" by simp
  have "keeps rs rs'"
    using h keeps_relD [OF relax_edge_ref_sim [OF wf, of u cd e]]
      keeps_relD [OF loop_body_ref_sim [OF wf, of g]]
      keeps_relD [OF dijkstra_loop_ref_sim [OF wf, of g]]
    by blast
  then show "\<forall>ev \<in> set (steps_refs rs).
             ev \<in> set (steps_refs rs') \<and> deref_event (store rs') ev = deref_event (store rs) ev"
    by (auto simp: keeps_def)
next
  assume v: "valid_input g s"
  then obtain st where st: "dijkstra_loop g (init_state g s) = Inr st"
    using valid_input_returns by blast
  from dijkstra_loop_ref_sim [OF wf_refs_init [of g s], of g] show "\<exists>h d_at evs fd steps.
             dijkstra_with_steps_ref g s = Inr (h, d_at, evs)
             \<and> dijkstra_with_steps g s = Inr (fd, steps)
             \<and> read_dict h d_at = Inr fd
             \<and> map (deref_event h) evs = steps"
  proof (cases rule: rel_sum_cases)
    case (Inl x y)
    then show ?thesis using st by (simp add: abs_state_init)
  next
    case (Inr rs1 st1)
    then have st1: "st = abs_state rs1" using st by (simp add: abs_state_init)
    from Inr(3) obtain d where d: "read_dict (store rs1) (distances_at rs1) = Inr d"
      by (auto simp: wf_refs_def)
    have "dijkstra_with_steps_ref g s = Inr (store rs1, distances_at rs1, steps_refs rs1)"
      using Inr(1) by (simp add: dijkstra_with_steps_ref_def)
    moreover have "dijkstra_with_steps g s = Inr (d, map (deref_event (store rs1)) (steps_refs rs1))"
      using st st1 d by (simp add: dijkstra_with_steps_def table_of_def)
    ultimately show ?thesis using d by blast
  qed
qed

text \<open>
  On the graph with the edges 0 to 1 (weight 2) and 1 to 2 (weight 3), started at 0:
  after the first pass through the loop body the log has two steps. The rest of the
  run adds to the live visited set and changes the live table, and both steps still read
  the same at the end.
\<close>

theorem snapshots_are_copies_witness:
  "(\<exists>rs rs'. wf_refs rs \<and> length (steps_refs rs) = 2
        \<and> loop_body_ref [(0, [(1, 2)]), (1, [(2, 3)]), (2, [])]
              (init_ref [(0, [(1, 2)]), (1, [(2, 3)]), (2, [])] 0) = Inr rs
        \<and> dijkstra_loop_ref [(0, [(1, 2)]), (1, [(2, 3)]), (2, [])] rs = Inr rs'
        \<and> table_of rs \<noteq> table_of rs' \<and> visited_of rs \<noteq> visited_of rs'
        \<and> (\<forall>ev \<in> set (steps_refs rs).
               ev \<in> set (steps_refs rs') \<and> deref_event (store rs') ev = deref_event (store rs) ev))
   \<and> valid_input [(0, [(1, 2)]), (1, [(2, 3)]), (2, [])] 0
   \<and> (\<exists>h d_at evs fd steps.
         dijkstra_with_steps_ref [(0, [(1, 2)]), (1, [(2, 3)]), (2, [])] 0 = Inr (h, d_at, evs)
         \<and> dijkstra_with_steps [(0, [(1, 2)]), (1, [(2, 3)]), (2, [])] 0 = Inr (fd, steps)
         \<and> read_dict h d_at = Inr fd
         \<and> map (deref_event h) evs = steps)"
proof -
  let ?g = "[(0, [(1, 2)]), (1, [(2, 3)]), (2, [])] :: graph"
  let ?rs = "\<lparr> store =
        [DictObj [(0, Fin 0), (1, Fin 2), (2, Infinity)], SetObj {0},
         DictObj [(0, Fin 0), (1, Infinity), (2, Infinity)], SetObj {0},
         DictObj [(0, Fin 0), (1, Fin 2), (2, Infinity)], SetObj {0}],
        distances_at = 0, visited_at = 1, frontier = [(2, 1)],
        steps_refs =
          [\<lparr> ev_node = 0, ev_path = None, ev_distances = 2, ev_visited = 3 \<rparr>,
           \<lparr> ev_node = 0, ev_path = Some (0, 1), ev_distances = 4, ev_visited = 5 \<rparr>] \<rparr>"
  let ?rs' = "\<lparr> store =
        [DictObj [(0, Fin 0), (1, Fin 2), (2, Fin 5)], SetObj {0, 1, 2},
         DictObj [(0, Fin 0), (1, Infinity), (2, Infinity)], SetObj {0},
         DictObj [(0, Fin 0), (1, Fin 2), (2, Infinity)], SetObj {0},
         DictObj [(0, Fin 0), (1, Fin 2), (2, Infinity)], SetObj {0, 1},
         DictObj [(0, Fin 0), (1, Fin 2), (2, Fin 5)], SetObj {0, 1},
         DictObj [(0, Fin 0), (1, Fin 2), (2, Fin 5)], SetObj {0, 1, 2}],
        distances_at = 0, visited_at = 1, frontier = [],
        steps_refs =
          [\<lparr> ev_node = 0, ev_path = None, ev_distances = 2, ev_visited = 3 \<rparr>,
           \<lparr> ev_node = 0, ev_path = Some (0, 1), ev_distances = 4, ev_visited = 5 \<rparr>,
           \<lparr> ev_node = 1, ev_path = None, ev_distances = 6, ev_visited = 7 \<rparr>,
           \<lparr> ev_node = 1, ev_path = Some (1, 2), ev_distances = 8, ev_visited = 9 \<rparr>,
           \<lparr> ev_node = 2, ev_path = None, ev_distances = 10, ev_visited = 11 \<rparr>] \<rparr>"
  have wf: "wf_refs ?rs"
    by (simp add: wf_refs_def read_dict_def read_set_def)
  have first: "loop_body_ref ?g (init_ref ?g 0) = Inr ?rs"
    by code_simp
  have run: "dijkstra_loop_ref ?g ?rs = Inr ?rs'"
    by code_simp
  have diff: "table_of ?rs \<noteq> table_of ?rs'" "visited_of ?rs \<noteq> visited_of ?rs'"
    by (simp_all add: table_of_def visited_of_def read_dict_def read_set_def)
  have v: "valid_input ?g 0"
    by (simp add: valid_input_def closed_graph_def)
  note t = snapshots_are_copies [where rs = ?rs and rs' = ?rs' and g = ?g and s = 0
      and u = 0 and cd = 0 and e = "(0, 0)"]
  from t wf run have "\<forall>ev \<in> set (steps_refs ?rs).
       ev \<in> set (steps_refs ?rs') \<and> deref_event (store ?rs') ev = deref_event (store ?rs) ev"
    by blast
  with wf first run diff have "\<exists>rs rs'. wf_refs rs \<and> length (steps_refs rs) = 2
        \<and> loop_body_ref ?g (init_ref ?g 0) = Inr rs
        \<and> dijkstra_loop_ref ?g rs = Inr rs'
        \<and> table_of rs \<noteq> table_of rs' \<and> visited_of rs \<noteq> visited_of rs'
        \<and> (\<forall>ev \<in> set (steps_refs rs).
               ev \<in> set (steps_refs rs') \<and> deref_event (store rs') ev = deref_event (store rs) ev)"
    by (intro exI [of _ ?rs] exI [of _ ?rs']) simp
  moreover from t v have "\<exists>h d_at evs fd steps.
         dijkstra_with_steps_ref ?g 0 = Inr (h, d_at, evs)
         \<and> dijkstra_with_steps ?g 0 = Inr (fd, steps)
         \<and> read_dict h d_at = Inr fd
         \<and> map (deref_event h) evs = steps"
    by blast
  ultimately show ?thesis using v by blast
qed

end
